theory Spec2Isabelle
  imports Complex_Main
begin

section \<open>C strings and the integer parser\<close>

text \<open>
  \<^verbatim>\<open>parseInt(const char* str, const int base)\<close> reads a null-terminated string: of a
  \<^typ>\<open>string\<close> it sees the characters before the first NUL. The only base the program
  passes is 10.
\<close>

definition c_str :: "string \<Rightarrow> string" where
  "c_str s = takeWhile (\<lambda>c. c \<noteq> CHR 0x00) s"

text \<open>The C locale's \<^verbatim>\<open>isspace\<close>: space, and the controls 9 to 13.\<close>

definition isspace :: "char \<Rightarrow> bool" where
  "isspace c = (c = CHR '' '' \<or> c = CHR 0x09 \<or> c = CHR 0x0A \<or> c = CHR 0x0B
      \<or> c = CHR 0x0C \<or> c = CHR 0x0D)"

definition isdigit :: "char \<Rightarrow> bool" where
  "isdigit c = (c \<in> set ''0123456789'')"

definition digit_val :: "char \<Rightarrow> int" where
  "digit_val c = int (of_char c) - 48"

definition dec_val :: "string \<Rightarrow> int" where
  "dec_val ds = foldl (\<lambda>a c. 10 * a + digit_val c) 0 ds"

definition LONG_MAX :: int where "LONG_MAX = 9223372036854775807"
definition LONG_MIN :: int where "LONG_MIN = - 9223372036854775808"
definition INT_MAX :: int where "INT_MAX = 2147483647"
definition INT_MIN :: int where "INT_MIN = - 2147483648"

text \<open>
  \<^verbatim>\<open>strtol(str, &end, 10)\<close> of the C library, on an LP64 target (\<^verbatim>\<open>long\<close> has 64 bits):
  skip white space, read an optional sign, then the longest run of decimal digits. With
  no digit nothing is converted: the value is 0 and \<^verbatim>\<open>end\<close> is \<^verbatim>\<open>str\<close>. A value outside
  \<^verbatim>\<open>long\<close> is clamped and \<^verbatim>\<open>errno\<close> is \<^verbatim>\<open>ERANGE\<close>. The result is the value, whether
  \<^verbatim>\<open>errno\<close> is \<^verbatim>\<open>ERANGE\<close>, and the text \<^verbatim>\<open>end\<close> points to.
\<close>

definition strtol :: "string \<Rightarrow> int \<times> bool \<times> string" where
  "strtol str =
     (let s1 = dropWhile isspace str;
          neg = (s1 \<noteq> [] \<and> hd s1 = CHR ''-'');
          s2 = (if s1 \<noteq> [] \<and> (hd s1 = CHR ''-'' \<or> hd s1 = CHR ''+'') then tl s1 else s1);
          ds = takeWhile isdigit s2;
          rest = dropWhile isdigit s2;
          v = (if neg then - dec_val ds else dec_val ds)
      in if ds = [] then (0, False, str)
         else if v > LONG_MAX then (LONG_MAX, True, rest)
         else if v < LONG_MIN then (LONG_MIN, True, rest)
         else (v, False, rest))"

text \<open>
  \<^verbatim>\<open>parseInt\<close>, with the source's three checks in the source's order. The cast to
  \<^verbatim>\<open>int\<close> on the last line is exact: the value is within \<^verbatim>\<open>int\<close> there.
\<close>

definition parseInt :: "string \<Rightarrow> int option" where
  "parseInt str =
     (case strtol (c_str str) of (l, erange, end_str) \<Rightarrow>
        if (erange \<and> l = LONG_MAX) \<or> l > INT_MAX then None
        else if (erange \<and> l = LONG_MIN) \<or> l < INT_MIN then None
        else if c_str str = [] \<or> end_str \<noteq> [] then None
        else Some l)"

text \<open>
  The numeral of the specification's integer parsing contract, in the specification's
  words: a complete, non-empty base-10 numeral with no extraneous characters. A sign in
  front is allowed; a sign alone is not a numeral.
\<close>

definition spec_numeral :: "string \<Rightarrow> bool" where
  "spec_numeral s =
     (case s of
        [] \<Rightarrow> False
      | c # cs \<Rightarrow>
          if c = CHR ''-'' \<or> c = CHR ''+'' then cs \<noteq> [] \<and> list_all isdigit cs
          else list_all isdigit s)"

section \<open>Unsigned sizes and strings\<close>

text \<open>
  \<^verbatim>\<open>size_t\<close> has 64 bits on the targets the program runs on; its values are the naturals
  below \<open>2 ^ 64\<close> and its arithmetic wraps around.
\<close>

definition SIZE_MOD :: nat where "SIZE_MOD = 2 ^ 64"

definition size_add :: "nat \<Rightarrow> nat \<Rightarrow> nat" where
  "size_add a b = (a + b) mod SIZE_MOD"

definition size_sub :: "nat \<Rightarrow> nat \<Rightarrow> nat" where
  "size_sub a b = (a + SIZE_MOD - b mod SIZE_MOD) mod SIZE_MOD"

definition size_mul :: "nat \<Rightarrow> nat \<Rightarrow> nat" where
  "size_mul a b = (a * b) mod SIZE_MOD"

text \<open>
  \<^verbatim>\<open>std::string::substr(pos, n)\<close> throws \<^verbatim>\<open>std::out_of_range\<close> when \<^verbatim>\<open>pos > size()\<close>;
  otherwise it returns the characters from \<^verbatim>\<open>pos\<close>, at most \<^verbatim>\<open>n\<close> of them. No function
  of the program catches an exception, so a thrown one ends the process. The other end of
  the process is the write through a null \<^verbatim>\<open>FILE*\<close> in \<^verbatim>\<open>saveCommandOutput\<close>, below.
\<close>

datatype exn = OutOfRange | NullFileWrite

definition substr :: "string \<Rightarrow> nat \<Rightarrow> nat \<Rightarrow> exn + string" where
  "substr s pos n = (if pos > length s then Inl OutOfRange else Inr (take n (drop pos s)))"

section \<open>Single precision values\<close>

text \<open>
  \<^verbatim>\<open>float\<close> is IEEE 754 binary32 and \<^verbatim>\<open>double\<close> binary64; every operation rounds its
  exact result to the nearest value of its type, ties to the even significand. A finite
  value is the rational it denotes. The magnitudes the samplers produce (quotients and
  sums of 32-bit integers, and a product with 100) stay far inside the exponent range of
  both types, so rounding is to 24 or 53 significant bits with no bound on the exponent.
\<close>

datatype float32 = Finite rat | PosInf | NegInf | NaN

fun bitlen :: "nat \<Rightarrow> nat" where
  "bitlen n = (if n = 0 then 0 else Suc (bitlen (n div 2)))"

declare bitlen.simps [simp del]

text \<open>\<open>ilog2 x\<close> is the exponent \<open>e\<close> with \<open>2 ^ e \<le> x < 2 ^ (e + 1)\<close>, for positive \<open>x\<close>.\<close>

definition ilog2 :: "rat \<Rightarrow> int" where
  "ilog2 x = (if 1 \<le> x then int (bitlen (nat \<lfloor>x\<rfloor>)) - 1
              else - int (bitlen (nat (\<lceil>1 / x\<rceil> - 1))))"

definition pow2 :: "int \<Rightarrow> rat" where
  "pow2 e = (if 0 \<le> e then 2 ^ nat e else 1 / 2 ^ nat (- e))"

definition round_half_even :: "rat \<Rightarrow> int" where
  "round_half_even x =
     (let f = \<lfloor>x\<rfloor>; r = x - of_int f
      in if r < 1 / 2 then f else if 1 / 2 < r then f + 1 else if even f then f else f + 1)"

definition round_to_bits :: "nat \<Rightarrow> rat \<Rightarrow> rat" where
  "round_to_bits p x =
     (if x = 0 then 0
      else let e = ilog2 \<bar>x\<bar> - (int p - 1)
           in sgn x * of_int (round_half_even (\<bar>x\<bar> / pow2 e)) * pow2 e)"

definition to_f32 :: "rat \<Rightarrow> rat" where
  "to_f32 x = round_to_bits 24 x"

definition to_f64 :: "rat \<Rightarrow> rat" where
  "to_f64 x = round_to_bits 53 x"

text \<open>\<^verbatim>\<open>float(v)\<close> of an \<^verbatim>\<open>int\<close>.\<close>

definition int_to_f32 :: "int \<Rightarrow> rat" where
  "int_to_f32 v = to_f32 (of_int v)"

text \<open>\<^verbatim>\<open>a + b\<close> of two finite \<^verbatim>\<open>float\<close>s.\<close>

definition f32_add :: "rat \<Rightarrow> rat \<Rightarrow> rat" where
  "f32_add a b = to_f32 (a + b)"

text \<open>
  \<^verbatim>\<open>a / b\<close> of two finite \<^verbatim>\<open>float\<close>s. The divisors of the program are sums of converted
  integers, whose zero is the positive zero.
\<close>

definition f32_div :: "rat \<Rightarrow> rat \<Rightarrow> float32" where
  "f32_div a b =
     (if b = 0 then (if a = 0 then NaN else if 0 < a then PosInf else NegInf)
      else Finite (to_f32 (a / b)))"

text \<open>
  \<^verbatim>\<open>return usedFraction * 100.0\<close>: the \<^verbatim>\<open>float\<close> is widened, the product is a \<^verbatim>\<open>double\<close>,
  and the \<^verbatim>\<open>float\<close> return type rounds it again.
\<close>

fun times_100 :: "float32 \<Rightarrow> float32" where
  "times_100 (Finite x) = Finite (to_f32 (to_f64 (x * 100)))"
| "times_100 PosInf = PosInf"
| "times_100 NegInf = NegInf"
| "times_100 NaN = NaN"

text \<open>\<^verbatim>\<open>pct >= threshold\<close> against a finite threshold: false for a NaN.\<close>

fun f32_ge :: "float32 \<Rightarrow> rat \<Rightarrow> bool" where
  "f32_ge (Finite x) t = (t \<le> x)"
| "f32_ge PosInf t = True"
| "f32_ge NegInf t = False"
| "f32_ge NaN t = False"

section \<open>What the program prints and runs\<close>

text \<open>
  The program acts on the world through \<^verbatim>\<open>popen\<close>, \<^verbatim>\<open>std::system\<close>, \<^verbatim>\<open>printf\<close> and
  \<^verbatim>\<open>sleep\<close>. Each call is an event of the trace, in program order; each \<^verbatim>\<open>printf\<close> of
  the source is a constructor holding its arguments. A report file's name is formatted
  from a prefix, the clock and the truncated percentage, and a notification command from
  the script, a title and the percentage: the events hold these parts unformatted.
\<close>

datatype event =
    ReadCommand string
  | LogCouldNotExecute string
  | LogParseFailed string string string
  | LogNoIdleColumn
  | SaveCommand string string int float32
  | LogCouldNotSave string
  | RunScript string string float32
  | LogScriptExit int
  | Sleep nat

text \<open>
  \<^verbatim>\<open>readCommandOutput\<close> appends the command's output to the buffer and returns true, or
  returns false when the pipe could not be opened. What the command did is given: whether
  the pipe opened, and the text read from it.
\<close>

type_synonym command_result = "bool \<times> string"

definition readCommandOutput :: "command_result \<Rightarrow> string \<Rightarrow> bool \<times> string" where
  "readCommandOutput r outResult =
     (if \<not> fst r then (False, outResult) else (True, outResult @ snd r))"

text \<open>
  \<^verbatim>\<open>saveCommandOutput\<close> opens the pipe and returns false when that fails. It opens the
  file and does not look at the result. Then, for each chunk \<^verbatim>\<open>fgets\<close> reads from the
  pipe, it calls \<^verbatim>\<open>fputs\<close> on the file, and returns false when \<^verbatim>\<open>fputs\<close> returns
  \<^verbatim>\<open>EOF\<close>; when the pipe is exhausted it returns true. Given is what these calls meet:
  whether the pipe opened, whether the file opened, and for each chunk read whether
  \<^verbatim>\<open>fputs\<close> wrote it. When the file did not open, the first \<^verbatim>\<open>fputs\<close> is handed a null
  \<^verbatim>\<open>FILE*\<close>: the behaviour is undefined, and the C library dereferences the pointer, so
  the process is killed by a segmentation fault. With no chunk to copy nothing is written
  and the function returns true.
\<close>

record capture_result =
  pipe_opened :: bool
  file_opened :: bool
  chunks_written :: "bool list"

fun copyChunks :: "bool \<Rightarrow> bool list \<Rightarrow> exn + bool" where
  "copyChunks outFile [] = Inr True"
| "copyChunks outFile (written # chunks) =
     (if \<not> outFile then Inl NullFileWrite
      else if \<not> written then Inr False
      else copyChunks outFile chunks)"

definition saveCommandOutput :: "capture_result \<Rightarrow> exn + bool" where
  "saveCommandOutput r =
     (if \<not> pipe_opened r then Inr False
      else copyChunks (file_opened r) (chunks_written r))"

section \<open>The memory sampler\<close>

text \<open>
  The scan of \<^verbatim>\<open>getFreePartValue\<close>: from \<^verbatim>\<open>startOffset\<close> up to \<^verbatim>\<open>end\<close>, decrement
  \<^verbatim>\<open>numberLen\<close>, and stop at the first character that is not a space. The result is
  \<^verbatim>\<open>numberStart\<close> and \<^verbatim>\<open>numberLen\<close> after the loop.
\<close>

function scanNumber :: "string \<Rightarrow> nat \<Rightarrow> nat \<Rightarrow> nat \<Rightarrow> nat \<Rightarrow> nat \<times> nat" where
  "scanNumber buffer startOffset end_pos i numberLen =
     (if i < end_pos then
        (if buffer ! i \<noteq> CHR '' '' then (i, size_sub numberLen 1)
         else scanNumber buffer startOffset end_pos (Suc i) (size_sub numberLen 1))
      else (startOffset, numberLen))"
  by pat_completeness auto
termination
  by (relation "measure (\<lambda>(buffer, startOffset, end_pos, i, numberLen). end_pos - i)") auto

declare scanNumber.simps [simp del]

definition free_cmd :: string where "free_cmd = ''free -L''"

definition getFreePartValue :: "string \<Rightarrow> nat \<Rightarrow> event list \<times> (exn + int)" where
  "getFreePartValue buffer partIndex =
     (let longestHeaderLen = 8 + 1;
          quarter = size_sub (length buffer) 1 div 4;
          startOffset = size_add (size_mul quarter partIndex) longestHeaderLen;
          maxNumberLen = size_sub quarter longestHeaderLen;
          end_pos = min (size_add startOffset maxNumberLen) (length buffer);
          (numberStart, numberLen) = scanNumber buffer startOffset end_pos startOffset maxNumberLen
      in case substr buffer numberStart numberLen of
           Inl e \<Rightarrow> ([], Inl e)
         | Inr numberPart \<Rightarrow>
             (case parseInt numberPart of
                None \<Rightarrow> ([LogParseFailed (c_str numberPart) free_cmd (c_str buffer)], Inr 0)
              | Some parsedNumber \<Rightarrow> ([], Inr parsedNumber)))"

definition checkMemory :: "command_result \<Rightarrow> event list \<times> (exn + float32)" where
  "checkMemory r =
     (let (hasExecuted, buffer) = readCommandOutput r [];
          ev0 = ReadCommand free_cmd # (if \<not> hasExecuted then [LogCouldNotExecute free_cmd] else [])
      in case getFreePartValue buffer 2 of
           (ev1, Inl e) \<Rightarrow> (ev0 @ ev1, Inl e)
         | (ev1, Inr usedValue) \<Rightarrow>
             (case getFreePartValue buffer 3 of
                (ev2, Inl e) \<Rightarrow> (ev0 @ ev1 @ ev2, Inl e)
              | (ev2, Inr freeValue) \<Rightarrow>
                  (let usedFraction =
                         f32_div (int_to_f32 usedValue)
                           (f32_add (int_to_f32 freeValue) (int_to_f32 usedValue))
                   in (ev0 @ ev1 @ ev2, Inr (times_100 usedFraction)))))"

section \<open>The CPU sampler\<close>

text \<open>
  \<^verbatim>\<open>isSubstr\<close>: the guard, then the comparison loop. Positions and sizes are far below
  \<open>2 ^ 64\<close> here (the only caller passes a position inside the buffer and a marker of five
  characters), so the sum of the guard does not wrap.
\<close>

function isSubstr_loop :: "string \<Rightarrow> string \<Rightarrow> nat \<Rightarrow> nat \<Rightarrow> bool" where
  "isSubstr_loop str substring position i =
     (if i < length substring then
        (if str ! (position + i) \<noteq> substring ! i then False
         else isSubstr_loop str substring position (Suc i))
      else True)"
  by pat_completeness auto
termination
  by (relation "measure (\<lambda>(str, substring, position, i). length substring - i)") auto

declare isSubstr_loop.simps [simp del]

definition isSubstr :: "string \<Rightarrow> string \<Rightarrow> nat \<Rightarrow> bool" where
  "isSubstr str substring position =
     (if position + length substring \<ge> length str then False
      else isSubstr_loop str substring position 0)"

definition sar_cmd :: string where "sar_cmd = ''sar --dec=0 1 1 | tail -n 3''"

text \<open>
  The first loop of \<^verbatim>\<open>checkCpu\<close>: it records the last position of the first line where
  \<^verbatim>\<open>isSubstr\<close> finds the marker, and stops after the first line terminator. The result is
  \<^verbatim>\<open>idleOffset\<close> (\<open>- 1\<close> when nothing was found) and \<^verbatim>\<open>secondLineStart\<close>.
\<close>

function findIdle :: "string \<Rightarrow> nat \<Rightarrow> int \<Rightarrow> int \<times> nat" where
  "findIdle buffer i idleOffset =
     (if i < length buffer then
        (let idleOffset' = (if isSubstr buffer ''%idle'' i then int i else idleOffset)
         in if buffer ! i = CHR 0x0A then (idleOffset', i + 1)
            else findIdle buffer (Suc i) idleOffset')
      else (idleOffset, 0))"
  by pat_completeness auto
termination
  by (relation "measure (\<lambda>(buffer, i, idleOffset). length buffer - i)") auto

declare findIdle.simps [simp del]

definition checkCpu :: "command_result \<Rightarrow> event list \<times> (exn + float32)" where
  "checkCpu r =
     (let (hasExecuted, buffer) = readCommandOutput r [];
          ev0 = ReadCommand sar_cmd # (if \<not> hasExecuted then [LogCouldNotExecute sar_cmd] else []);
          (idleOffset, secondLineStart) = findIdle buffer 0 (- 1)
      in if idleOffset = - 1 then (ev0 @ [LogNoIdleColumn], Inr (Finite 0))
         else
           (case substr buffer (secondLineStart + nat idleOffset + 2) 3 of
              Inl e \<Rightarrow> (ev0, Inl e)
            | Inr numberPart \<Rightarrow>
                (case parseInt numberPart of
                   None \<Rightarrow>
                     (ev0 @ [LogParseFailed (c_str numberPart) sar_cmd (c_str buffer)], Inr (Finite 0))
                 | Some parsedNumber \<Rightarrow> (ev0, Inr (Finite (int_to_f32 (100 - parsedNumber)))))))"

section \<open>Configuration and alert state\<close>

text \<open>
  The thresholds are \<^verbatim>\<open>float\<close>s, always finite: they are the defaults or converted
  integers. A time point of \<^verbatim>\<open>std::chrono::system_clock\<close> is a signed count of clock
  ticks since the epoch, a nanosecond each; the default-constructed time point is the
  epoch, and \<^verbatim>\<open>AppState appState;\<close> default-constructs both members.
\<close>

record Args =
  memThresholdPct :: rat
  cpuThresholdPct :: rat
  timeBetweenChecksSec :: nat
  runCustomScript :: string
  notificationThrottleSec :: nat

definition default_Args :: Args where
  "default_Args =
     \<lparr>memThresholdPct = 70, cpuThresholdPct = 70, timeBetweenChecksSec = 60,
      runCustomScript = [], notificationThrottleSec = 20 * 60\<rparr>"

record AppState =
  lastMemAlertSentTime :: int
  lastCpuAlertSentTime :: int

definition initial_AppState :: AppState where
  "initial_AppState = \<lparr>lastMemAlertSentTime = 0, lastCpuAlertSentTime = 0\<rparr>"

definition ticks_per_second :: int where
  "ticks_per_second = 1000000000"

definition seconds :: "nat \<Rightarrow> int" where
  "seconds n = int n * ticks_per_second"

section \<open>Reading the arguments\<close>

text \<open>
  \<^verbatim>\<open>argv[i][k]\<close>: an argument is a C string, here the characters before its terminator;
  the character at its length is the terminator.
\<close>

definition c_at :: "string \<Rightarrow> nat \<Rightarrow> char" where
  "c_at s k = (if k < length s then s ! k else CHR 0x00)"

text \<open>
  \<^verbatim>\<open>readArgValue<T>\<close> at its three instances. \<open>None\<close> is the return value false;
  otherwise the result is the value stored in \<^verbatim>\<open>dest\<close>, and \<^verbatim>\<open>i\<close> is incremented by
  the caller's model. For \<^verbatim>\<open>size_t\<close> the branch on \<^verbatim>\<open>sizeof(T) < sizeof(int)\<close> is
  compiled out.
\<close>

definition readArgValue_float :: "string list \<Rightarrow> nat \<Rightarrow> rat option" where
  "readArgValue_float argv i =
     (if i + 1 \<ge> length argv \<or> c_at (argv ! (i + 1)) 0 = CHR ''-'' then None
      else case parseInt (argv ! (i + 1)) of
             Some v \<Rightarrow> Some (int_to_f32 v)
           | None \<Rightarrow> None)"

definition readArgValue_size :: "string list \<Rightarrow> nat \<Rightarrow> nat option" where
  "readArgValue_size argv i =
     (if i + 1 \<ge> length argv \<or> c_at (argv ! (i + 1)) 0 = CHR ''-'' then None
      else case parseInt (argv ! (i + 1)) of
             None \<Rightarrow> None
           | Some v \<Rightarrow> if v < 0 then None else Some (nat v))"

definition readArgValue_string :: "string list \<Rightarrow> nat \<Rightarrow> string option" where
  "readArgValue_string argv i =
     (if i + 1 \<ge> length argv \<or> c_at (argv ! (i + 1)) 0 = CHR ''-'' then None
      else Some (argv ! (i + 1)))"

text \<open>
  One round of the loop of \<^verbatim>\<open>readArgs\<close>, up to its two checks: the result is
  \<^verbatim>\<open>isFound\<close>, \<^verbatim>\<open>isMissingValue\<close>, and the arguments record and \<^verbatim>\<open>i\<close> as
  \<^verbatim>\<open>readArgValue\<close> left them.
\<close>

definition store :: "'a option \<Rightarrow> ('a \<Rightarrow> Args) \<Rightarrow> Args \<Rightarrow> nat \<Rightarrow> bool \<times> bool \<times> Args \<times> nat" where
  "store r upd args i =
     (case r of None \<Rightarrow> (True, True, args, i) | Some v \<Rightarrow> (True, False, upd v, i + 1))"

definition readOneArg :: "string list \<Rightarrow> nat \<Rightarrow> Args \<Rightarrow> bool \<times> bool \<times> Args \<times> nat" where
  "readOneArg argv i args =
     (let a = argv ! i in
      if c_at a 0 = CHR ''-'' \<and> c_at a 1 \<noteq> CHR 0x00 \<and> c_at a 2 = CHR 0x00 then
        (if c_at a 1 = CHR ''m'' then
           store (readArgValue_float argv i) (\<lambda>v. args\<lparr>memThresholdPct := v\<rparr>) args i
         else if c_at a 1 = CHR ''c'' then
           store (readArgValue_float argv i) (\<lambda>v. args\<lparr>cpuThresholdPct := v\<rparr>) args i
         else if c_at a 1 = CHR ''t'' then
           store (readArgValue_size argv i) (\<lambda>v. args\<lparr>timeBetweenChecksSec := v\<rparr>) args i
         else if c_at a 1 = CHR ''r'' then
           store (readArgValue_string argv i) (\<lambda>v. args\<lparr>runCustomScript := v\<rparr>) args i
         else if c_at a 1 = CHR ''n'' then
           store (readArgValue_size argv i) (\<lambda>v. args\<lparr>notificationThrottleSec := v\<rparr>) args i
         else (False, False, args, i))
      else (False, False, args, i))"

text \<open>
  The loop of \<^verbatim>\<open>readArgs\<close>. \<open>Inl code\<close> is \<^verbatim>\<open>exit(code)\<close>: 1 for an unknown argument,
  2 for an argument without a valid value. The message printed before the exit is not
  part of the result. \<^verbatim>\<open>readArgValue\<close> never decrements \<^verbatim>\<open>i\<close>, which is why the loop
  ends.
\<close>

lemma store_index: "store r upd args i = (isFound, isMissingValue, args', i') \<Longrightarrow> i \<le> i'"
  by (auto simp: store_def split: option.splits)

lemma readOneArg_index:
  "readOneArg argv i args = (isFound, isMissingValue, args', i') \<Longrightarrow> i \<le> i'"
  by (auto simp: readOneArg_def Let_def split: if_splits dest: store_index)

function readArgs_loop :: "string list \<Rightarrow> nat \<Rightarrow> Args \<Rightarrow> nat + Args" where
  "readArgs_loop argv i args =
     (if i < length argv then
        (case readOneArg argv i args of
           (isFound, isMissingValue, args', i') \<Rightarrow>
             if \<not> isFound then Inl 1
             else if isMissingValue then Inl 2
             else readArgs_loop argv (Suc i') args')
      else Inr args)"
  by pat_completeness auto
termination
  apply (relation "measure (\<lambda>(argv, i, args). length argv - i)")
   apply simp
  apply (auto dest: readOneArg_index [OF sym])
  done

declare readArgs_loop.simps [simp del]

definition readArgs :: "string list \<Rightarrow> nat + Args" where
  "readArgs argv = (if length argv = 1 then Inr default_Args else readArgs_loop argv 1 default_Args)"

section \<open>The alert throttle\<close>

text \<open>
  \<^verbatim>\<open>trySendNotification\<close>. Given are the clock reading \<^verbatim>\<open>timeNow\<close> and the code
  \<^verbatim>\<open>std::system\<close> returns, should it run. The result is the trace and \<^verbatim>\<open>lastSendTime\<close>
  after the call.
\<close>

definition trySendNotification ::
    "Args \<Rightarrow> int \<Rightarrow> string \<Rightarrow> float32 \<Rightarrow> int \<Rightarrow> int \<Rightarrow> event list \<times> int" where
  "trySendNotification args lastSendTime errorTitle consumptionPct timeNow resultCode =
     (if runCustomScript args \<noteq> [] then
        (if timeNow > lastSendTime + seconds (notificationThrottleSec args) then
           (RunScript (runCustomScript args) errorTitle consumptionPct
              # (if resultCode \<noteq> 0 then [LogScriptExit resultCode] else []),
            timeNow)
         else ([], lastSendTime))
      else ([], lastSendTime))"

section \<open>The monitoring cycle\<close>

text \<open>
  What one cycle meets outside the program: the output of the two sampling commands, and
  for each alert kind the clock when the reports are named, what each
  \<^verbatim>\<open>saveCommandOutput\<close> meets, the clock inside \<^verbatim>\<open>trySendNotification\<close> and the script's
  exit code.
\<close>

record cycle_env =
  free_result :: command_result
  mem_time :: int
  mem_ps :: capture_result
  mem_top :: capture_result
  mem_notify_time :: int
  mem_notify_code :: int
  sar_result :: command_result
  cpu_time :: int
  cpu_ps :: capture_result
  cpu_notify_time :: int
  cpu_notify_code :: int

definition mem_title :: string where "mem_title = ''Memory consumption is high''"
definition cpu_title :: string where "cpu_title = ''CPU consumption is high''"

text \<open>
  The body of the memory branch of \<^verbatim>\<open>doPeriodicCheck\<close>, entered on a breach. The result
  is the trace, and either what ended the process or the state after the branch.
\<close>

definition memAlert ::
    "Args \<Rightarrow> AppState \<Rightarrow> cycle_env \<Rightarrow> float32 \<Rightarrow> event list \<times> (exn + AppState)" where
  "memAlert args appState env memConsumptionPct =
     (let timeNow = mem_time env;
          ev1 = [SaveCommand ''ps aux --sort=-%mem'' ''mem_report_ps_'' timeNow memConsumptionPct]
      in case saveCommandOutput (mem_ps env) of
           Inl e \<Rightarrow> (ev1, Inl e)
         | Inr couldSavePs \<Rightarrow>
             (let ev2 = ev1
                    @ (if \<not> couldSavePs
                       then [LogCouldNotSave ''Could not save mem report from ps to file''] else [])
                    @ [SaveCommand ''top -b -n 1 -o =%MEM'' ''mem_report_top_'' timeNow
                         memConsumptionPct]
              in case saveCommandOutput (mem_top env) of
                   Inl e \<Rightarrow> (ev2, Inl e)
                 | Inr couldSaveTop \<Rightarrow>
                     (let ev3 = ev2
                            @ (if \<not> couldSaveTop
                               then [LogCouldNotSave ''Could not save mem report from top to file'']
                               else []);
                          (ev4, t) = trySendNotification args (lastMemAlertSentTime appState)
                                       mem_title memConsumptionPct (mem_notify_time env)
                                       (mem_notify_code env)
                      in (ev3 @ ev4, Inr (appState\<lparr>lastMemAlertSentTime := t\<rparr>)))))"

text \<open>The body of the CPU branch.\<close>

definition cpuAlert ::
    "Args \<Rightarrow> AppState \<Rightarrow> cycle_env \<Rightarrow> float32 \<Rightarrow> event list \<times> (exn + AppState)" where
  "cpuAlert args appState env cpuConsumptionPct =
     (let timeNow = cpu_time env;
          ev1 = [SaveCommand ''ps aux --sort=-%cpu'' ''cpu_report_'' timeNow cpuConsumptionPct]
      in case saveCommandOutput (cpu_ps env) of
           Inl e \<Rightarrow> (ev1, Inl e)
         | Inr couldSave \<Rightarrow>
             (let ev2 = ev1
                    @ (if \<not> couldSave
                       then [LogCouldNotSave ''Could not save cpu report to file''] else []);
                  (ev3, t) = trySendNotification args (lastCpuAlertSentTime appState) cpu_title
                               cpuConsumptionPct (cpu_notify_time env) (cpu_notify_code env)
              in (ev2 @ ev3, Inr (appState\<lparr>lastCpuAlertSentTime := t\<rparr>))))"

text \<open>
  \<^verbatim>\<open>doPeriodicCheck\<close>. The result is the trace up to the return or to the end of the
  process, and either what ended the process or the state at the return.
\<close>

definition doPeriodicCheck :: "Args \<Rightarrow> AppState \<Rightarrow> cycle_env \<Rightarrow> event list \<times> (exn + AppState)" where
  "doPeriodicCheck args appState env =
     (case checkMemory (free_result env) of
        (evm, Inl e) \<Rightarrow> (evm, Inl e)
      | (evm, Inr memConsumptionPct) \<Rightarrow>
          (case (if f32_ge memConsumptionPct (memThresholdPct args)
                 then memAlert args appState env memConsumptionPct
                 else ([], Inr appState)) of
             (eva, Inl e) \<Rightarrow> (evm @ eva, Inl e)
           | (eva, Inr st1) \<Rightarrow>
               (case checkCpu (sar_result env) of
                  (evc, Inl e) \<Rightarrow> (evm @ eva @ evc, Inl e)
                | (evc, Inr cpuConsumptionPct) \<Rightarrow>
                    (case (if f32_ge cpuConsumptionPct (cpuThresholdPct args)
                           then cpuAlert args st1 env cpuConsumptionPct
                           else ([], Inr st1)) of
                       (evb, Inl e) \<Rightarrow> (evm @ eva @ evc @ evb, Inl e)
                     | (evb, Inr st2) \<Rightarrow> (evm @ eva @ evc @ evb, Inr st2)))))"

text \<open>
  The loop of \<^verbatim>\<open>main\<close> never returns. Its run over the first cycles, one environment
  each: a cycle is \<^verbatim>\<open>doPeriodicCheck\<close>, then \<^verbatim>\<open>sleep\<close>; a cycle that ends the process is
  the last.
\<close>

fun main_loop :: "Args \<Rightarrow> AppState \<Rightarrow> cycle_env list \<Rightarrow> event list \<times> (exn + AppState)" where
  "main_loop args appState [] = ([], Inr appState)"
| "main_loop args appState (env # envs) =
     (case doPeriodicCheck args appState env of
        (ev, Inl e) \<Rightarrow> (ev, Inl e)
      | (ev, Inr st) \<Rightarrow>
          (case main_loop args st envs of
             (evs, r) \<Rightarrow> (ev @ Sleep (timeBetweenChecksSec args) # evs, r)))"

text \<open>\<^verbatim>\<open>main\<close>: read the arguments, then run the loop from the initial state.\<close>

definition main :: "string list \<Rightarrow> cycle_env list \<Rightarrow> nat + event list \<times> (exn + AppState)" where
  "main argv envs =
     (case readArgs argv of
        Inl code \<Rightarrow> Inl code
      | Inr args \<Rightarrow> Inr (main_loop args initial_AppState envs))"

section \<open>The first line of a report\<close>

text \<open>The index of the first line terminator of a buffer, or its length when it has none.\<close>

definition line_end :: "string \<Rightarrow> nat" where
  "line_end buffer = length (takeWhile (\<lambda>c. c \<noteq> CHR 0x0A) buffer)"

section \<open>The fixed-column format\<close>

text \<open>
  The report of the memory tool in the specification's words: four blocks of equal width
  and a line terminator; a block begins with a header, of width 9 with its separating
  space at the longest, and holds its value right-justified after space padding, with one
  separator character closing the block. The value text of block \<open>k\<close> is what is left
  of the block without the header, the padding and the closing separator.
\<close>

definition is_space :: "char \<Rightarrow> bool" where
  "is_space c = (c = CHR '' '')"

definition block_field :: "string \<Rightarrow> nat \<Rightarrow> string" where
  "block_field buffer k =
     (let w = (length buffer - 1) div 4;
          block = take w (drop (k * w) buffer)
      in butlast (dropWhile is_space (drop 9 block)))"

section \<open>Reading a trace\<close>

text \<open>A notification was dispatched when the trace runs the script.\<close>

fun is_RunScript :: "event \<Rightarrow> bool" where
  "is_RunScript (RunScript script title pct) = True"
| "is_RunScript e = False"

definition dispatched :: "event list \<times> int \<Rightarrow> bool" where
  "dispatched r = list_ex is_RunScript (fst r)"





section \<open>Example inputs\<close>

text \<open>
  Lines as \<^verbatim>\<open>free -L\<close> prints them: four blocks of twenty characters (a header of seven,
  a space, the value right-justified in eleven, a space) and the line terminator.
\<close>

definition free_30_70 :: string where
  "free_30_70 =
     ''SwapUse           0 CachUse      123456  MemUse          30 MemFree          70 '' @ [CHR 0x0A]"

definition free_85_15 :: string where
  "free_85_15 =
     ''SwapUse           0 CachUse      123456  MemUse          85 MemFree          15 '' @ [CHR 0x0A]"

text \<open>The last three lines of a \<^verbatim>\<open>sar --dec=0 1 1\<close> report, idle at 35 and at 5 percent.\<close>

definition sar_35 :: string where
  "sar_35 =
     ''12:00:01 AM     CPU     %user     %nice   %system   %iowait    %steal     %idle'' @ [CHR 0x0A] @
     ''12:00:02 AM     all        60         0         5         0         0        35'' @ [CHR 0x0A] @
     ''Average:        all        60         0         5         0         0        35'' @ [CHR 0x0A]"

definition sar_5 :: string where
  "sar_5 =
     ''12:00:01 AM     CPU     %user     %nice   %system   %iowait    %steal     %idle'' @ [CHR 0x0A] @
     ''12:00:02 AM     all        90         0         5         0         0         5'' @ [CHR 0x0A] @
     ''Average:        all        90         0         5         0         0         5'' @ [CHR 0x0A]"

text \<open>The default configuration with a notification script.\<close>

definition notify_Args :: Args where
  "notify_Args = default_Args\<lparr>runCustomScript := ''notify''\<rparr>"

text \<open>
  Three captures: one that copies two chunks; one whose pipe does not open; and one whose
  file does not open (a directory that cannot be written) while the command prints.
\<close>

definition capture_saved :: capture_result where
  "capture_saved = \<lparr>pipe_opened = True, file_opened = True, chunks_written = [True, True]\<rparr>"

definition capture_no_pipe :: capture_result where
  "capture_no_pipe = \<lparr>pipe_opened = False, file_opened = True, chunks_written = []\<rparr>"

definition capture_no_file :: capture_result where
  "capture_no_file = \<lparr>pipe_opened = True, file_opened = False, chunks_written = [True, True]\<rparr>"

text \<open>
  A cycle under load, some time in 2026: memory at 85 and CPU at 95 percent, the first
  memory report not saved, and the script exiting with 1 on the memory alert.
\<close>

definition busy_env :: cycle_env where
  "busy_env =
     \<lparr>free_result = (True, free_85_15),
      mem_time = seconds 1790000000, mem_ps = capture_no_pipe, mem_top = capture_saved,
      mem_notify_time = seconds 1790000001, mem_notify_code = 1,
      sar_result = (True, sar_5),
      cpu_time = seconds 1790000002, cpu_ps = capture_saved,
      cpu_notify_time = seconds 1790000003, cpu_notify_code = 0\<rparr>"


section \<open>Properties of the integer parser\<close>

lemmas parse_defs = parseInt_def strtol_def c_str_def isspace_def isdigit_def dec_val_def
  digit_val_def LONG_MAX_def LONG_MIN_def INT_MAX_def INT_MIN_def

lemma isdigit_not_space: "isdigit c \<Longrightarrow> \<not> isspace c"
  by (auto simp: isdigit_def isspace_def)

lemma isdigit_not_sign: "isdigit c \<Longrightarrow> c \<noteq> CHR ''-'' \<and> c \<noteq> CHR ''+''"
  by (auto simp: isdigit_def)

lemma sign_not_space: "\<not> isspace CHR ''-''" "\<not> isspace CHR ''+''"
  by (simp_all add: isspace_def)

lemma dropWhile_skip:
  assumes "\<forall>c\<in>set ws. P c" and "ys = [] \<or> \<not> P (hd ys)"
  shows "dropWhile P (ws @ ys) = ys"
proof -
  have "dropWhile P (ws @ ys) = dropWhile P ys"
    using assms(1) by (simp add: dropWhile_append2)
  also have "\<dots> = ys"
    using assms(2) by (cases ys) auto
  finally show ?thesis .
qed

lemma strtol_numeral:
  assumes ws: "\<forall>c\<in>set ws. isspace c"
    and sg: "sg = [] \<or> sg = ''+'' \<or> sg = ''-''"
    and ds: "ds \<noteq> []" "\<forall>c\<in>set ds. isdigit c"
    and v: "v = (if sg = ''-'' then - dec_val ds else dec_val ds)"
    and range: "LONG_MIN \<le> v" "v \<le> LONG_MAX"
  shows "strtol (ws @ sg @ ds) = (v, False, [])"
proof -
  have d: "isdigit (hd ds)" using ds by (cases ds) auto
  have hd_ok: "\<not> isspace (hd (sg @ ds))"
    using sg d ds(1) sign_not_space isdigit_not_space by auto
  have s1: "dropWhile isspace (ws @ sg @ ds) = sg @ ds"
    by (rule dropWhile_skip) (use ws hd_ok in auto)
  have tk: "takeWhile isdigit ds = ds" using ds(2) by (simp add: takeWhile_eq_all_conv)
  have dr: "dropWhile isdigit ds = []" using ds(2) by simp
  have hd_ds: "hd ds \<noteq> CHR ''-''" "hd ds \<noteq> CHR ''+''"
    using isdigit_not_sign [OF d] by simp_all
  have lt: "\<not> v > LONG_MAX" "\<not> v < LONG_MIN" using range by simp_all
  from sg show ?thesis
  proof (elim disjE)
    assume "sg = []"
    then show ?thesis
      unfolding strtol_def s1 using ds(1) hd_ds v lt
      by (simp add: Let_def tk dr)
  next
    assume "sg = ''+''"
    then show ?thesis
      unfolding strtol_def s1 using ds(1) v lt
      by (simp add: Let_def tk dr)
  next
    assume "sg = ''-''"
    then show ?thesis
      unfolding strtol_def s1 using ds(1) v lt
      by (simp add: Let_def tk dr)
  qed
qed

lemma strtol_converted:
  assumes "strtol str = (l, er, [])" and "str \<noteq> []"
  shows "\<exists>ws sg ds. str = ws @ sg @ ds \<and> (\<forall>c\<in>set ws. isspace c) \<and>
           (sg = [] \<or> sg = ''+'' \<or> sg = ''-'') \<and> ds \<noteq> [] \<and> (\<forall>c\<in>set ds. isdigit c) \<and>
           (let v = (if sg = ''-'' then - dec_val ds else dec_val ds) in
              if v > LONG_MAX then l = LONG_MAX \<and> er
              else if v < LONG_MIN then l = LONG_MIN \<and> er
              else l = v \<and> \<not> er)"
proof -
  define s1 where "s1 = dropWhile isspace str"
  define s2 where "s2 = (if s1 \<noteq> [] \<and> (hd s1 = CHR ''-'' \<or> hd s1 = CHR ''+'') then tl s1 else s1)"
  define sg where "sg = (if s1 \<noteq> [] \<and> (hd s1 = CHR ''-'' \<or> hd s1 = CHR ''+'') then [hd s1] else [])"
  define ds where "ds = takeWhile isdigit s2"
  have nonempty: "ds \<noteq> []"
    using assms by (auto simp: strtol_def Let_def ds_def s2_def s1_def split: if_splits)
  have rest: "dropWhile isdigit s2 = []"
    using assms nonempty
    by (auto simp: strtol_def Let_def ds_def s2_def s1_def split: if_splits)
  have "s2 = ds @ dropWhile isdigit s2" by (simp add: ds_def)
  then have s2: "s2 = ds" using rest by simp
  have s1: "s1 = sg @ s2" by (auto simp: sg_def s2_def)
  have str: "str = takeWhile isspace str @ sg @ ds"
    using s1 s2 takeWhile_dropWhile_id [of isspace str] by (simp add: s1_def)
  have wsp: "\<forall>c\<in>set (takeWhile isspace str). isspace c"
    by (auto dest: set_takeWhileD)
  have dig: "\<forall>c\<in>set ds. isdigit c"
    by (auto simp: ds_def dest: set_takeWhileD)
  have sgs: "sg = [] \<or> sg = ''+'' \<or> sg = ''-''"
    by (auto simp: sg_def)
  have neg: "(s1 \<noteq> [] \<and> hd s1 = CHR ''-'') = (sg = ''-'')"
    by (auto simp: sg_def)
  have val: "(let v = (if sg = ''-'' then - dec_val ds else dec_val ds) in
              if v > LONG_MAX then l = LONG_MAX \<and> er
              else if v < LONG_MIN then l = LONG_MIN \<and> er
              else l = v \<and> \<not> er)"
    using assms(1) nonempty neg
    unfolding strtol_def Let_def s1_def [symmetric] s2_def [symmetric] ds_def [symmetric]
    by (auto split: if_splits)
  show ?thesis
    using str wsp dig sgs nonempty val by blast
qed

lemma parseInt_decomposition:
  "parseInt s = Some v \<longleftrightarrow>
     (\<exists>ws sg ds. c_str s = ws @ sg @ ds \<and> (\<forall>c\<in>set ws. isspace c) \<and>
        (sg = [] \<or> sg = ''+'' \<or> sg = ''-'') \<and> ds \<noteq> [] \<and> (\<forall>c\<in>set ds. isdigit c) \<and>
        v = (if sg = ''-'' then - dec_val ds else dec_val ds) \<and> INT_MIN \<le> v \<and> v \<le> INT_MAX)"
  (is "?L \<longleftrightarrow> ?R")
proof
  assume ?L
  then obtain l er where st: "strtol (c_str s) = (l, er, [])" and ne: "c_str s \<noteq> []"
    and lv: "l = v" and r1: "\<not> ((er \<and> l = LONG_MAX) \<or> l > INT_MAX)"
    and r2: "\<not> ((er \<and> l = LONG_MIN) \<or> l < INT_MIN)"
    by (auto simp: parseInt_def split: prod.splits if_splits)
  from strtol_converted [OF st ne] obtain ws sg ds where
    d: "c_str s = ws @ sg @ ds" "\<forall>c\<in>set ws. isspace c" "sg = [] \<or> sg = ''+'' \<or> sg = ''-''"
      "ds \<noteq> []" "\<forall>c\<in>set ds. isdigit c"
    and val: "(let v = (if sg = ''-'' then - dec_val ds else dec_val ds) in
              if v > LONG_MAX then l = LONG_MAX \<and> er
              else if v < LONG_MIN then l = LONG_MIN \<and> er
              else l = v \<and> \<not> er)"
    by blast
  from val r1 r2 lv have "v = (if sg = ''-'' then - dec_val ds else dec_val ds) \<and> INT_MIN \<le> v \<and> v \<le> INT_MAX"
    by (auto simp: Let_def split: if_splits)
  with d show ?R by blast
next
  assume ?R
  then obtain ws sg ds where
    d: "c_str s = ws @ sg @ ds" "\<forall>c\<in>set ws. isspace c" "sg = [] \<or> sg = ''+'' \<or> sg = ''-''"
      "ds \<noteq> []" "\<forall>c\<in>set ds. isdigit c"
    and v: "v = (if sg = ''-'' then - dec_val ds else dec_val ds)" and r: "INT_MIN \<le> v" "v \<le> INT_MAX"
    by blast
  have lr: "LONG_MIN \<le> v" "v \<le> LONG_MAX"
    using r by (simp_all add: LONG_MIN_def LONG_MAX_def INT_MIN_def INT_MAX_def)
  have st: "strtol (c_str s) = (v, False, [])"
    unfolding d(1) by (rule strtol_numeral [OF d(2) d(3) d(4) d(5) v lr])
  have "c_str s \<noteq> []" using d(1) d(4) by simp
  then show ?L using st r by (simp add: parseInt_def)
qed


text \<open>
  C2, as the code has it. \<^verbatim>\<open>parseInt\<close> returns \<open>v\<close> exactly when the string is white
  space (possibly none), then an optional sign \<^verbatim>\<open>+\<close> or \<^verbatim>\<open>-\<close>, then one or more decimal
  digits and nothing after them, and the value \<open>v\<close> so written lies in the signed 32-bit
  range. So an empty string, white space alone, a sign alone, a character after the
  digits, a non-digit among them and a value out of range all fail; leading white space
  is skipped, as \<^verbatim>\<open>strtol\<close> does.
\<close>

theorem parseInt_iff:
  "parseInt s = Some v \<longleftrightarrow>
     (\<exists>ws sg ds. c_str s = ws @ sg @ ds \<and> (\<forall>c\<in>set ws. isspace c) \<and>
        (sg = [] \<or> sg = ''+'' \<or> sg = ''-'') \<and> ds \<noteq> [] \<and> (\<forall>c\<in>set ds. isdigit c) \<and>
        v = (if sg = ''-'' then - dec_val ds else dec_val ds) \<and> INT_MIN \<le> v \<and> v \<le> INT_MAX)"
  by (rule parseInt_decomposition)

theorem parseInt_iff_witness: "parseInt '' -12'' = Some (- 12)"
proof -
  have "c_str '' -12'' = '' '' @ ''-'' @ ''12'' \<and> (\<forall>c\<in>set '' ''. isspace c) \<and>
        (''-'' = [] \<or> ''-'' = ''+'' \<or> ''-'' = ''-'') \<and> ''12'' \<noteq> [] \<and>
        (\<forall>c\<in>set ''12''. isdigit c) \<and>
        (- 12 :: int) = (if ''-'' = ''-'' then - dec_val ''12'' else dec_val ''12'') \<and>
        INT_MIN \<le> - 12 \<and> - 12 \<le> INT_MAX"
    by (simp add: parse_defs)
  then show ?thesis
    using parseInt_iff [of "'' -12''" "- 12"] by blast
qed

text \<open>
  C2, as the specification words it, fails on leading white space: \<^verbatim>\<open>" 35"\<close> holds a
  character that is no part of a numeral, and \<^verbatim>\<open>parseInt\<close> returns 35 for it. The CPU
  sampler depends on this: its three-character field is passed on with its padding.
\<close>

theorem parseInt_leading_space_counterexample:
  "\<not> spec_numeral '' 35'' \<and> \<not> isdigit (CHR '' '') \<and> CHR '' '' \<in> set '' 35'' \<and>
   parseInt '' 35'' = Some 35"
  by (simp add: spec_numeral_def parse_defs)

section \<open>Evaluating the examples\<close>

lemmas size_defs = size_sub_def size_add_def size_mul_def SIZE_MOD_def

lemma scanNumber_done:
  "end_pos \<le> i \<Longrightarrow> scanNumber buffer startOffset end_pos i numberLen = (startOffset, numberLen)"
  by (simp add: scanNumber.simps)

lemma getFreePartValue_empty: "getFreePartValue [] 2 = ([], Inl OutOfRange)"
  by (simp add: getFreePartValue_def size_defs scanNumber_done substr_def)

lemma checkMemory_empty:
  "checkMemory (ok, []) =
     (ReadCommand free_cmd # (if ok then [] else [LogCouldNotExecute free_cmd]), Inl OutOfRange)"
  by (simp add: checkMemory_def readCommandOutput_def getFreePartValue_empty)

lemma getFreePartValue_30_70:
  "getFreePartValue free_30_70 2 = ([], Inr 30)" "getFreePartValue free_30_70 3 = ([], Inr 70)"
proof -
  have len: "length free_30_70 = 81" by (simp add: free_30_70_def)
  show "getFreePartValue free_30_70 2 = ([], Inr 30)"
    unfolding getFreePartValue_def len
    apply (simp add: size_defs)
    apply (simp add: scanNumber.simps free_30_70_def size_defs)
    apply (simp add: substr_def parse_defs)
    done
  show "getFreePartValue free_30_70 3 = ([], Inr 70)"
    unfolding getFreePartValue_def len
    apply (simp add: size_defs)
    apply (simp add: scanNumber.simps free_30_70_def size_defs)
    apply (simp add: substr_def parse_defs)
    done
qed

lemma getFreePartValue_85_15:
  "getFreePartValue free_85_15 2 = ([], Inr 85)" "getFreePartValue free_85_15 3 = ([], Inr 15)"
proof -
  have len: "length free_85_15 = 81" by (simp add: free_85_15_def)
  show "getFreePartValue free_85_15 2 = ([], Inr 85)"
    unfolding getFreePartValue_def len
    apply (simp add: size_defs)
    apply (simp add: scanNumber.simps free_85_15_def size_defs)
    apply (simp add: substr_def parse_defs)
    done
  show "getFreePartValue free_85_15 3 = ([], Inr 15)"
    unfolding getFreePartValue_def len
    apply (simp add: size_defs)
    apply (simp add: scanNumber.simps free_85_15_def size_defs)
    apply (simp add: substr_def parse_defs)
    done
qed

lemma pct_30_70:
  "times_100 (f32_div (int_to_f32 30) (f32_add (int_to_f32 70) (int_to_f32 30))) =
     Finite (15728641 / 524288)"
  by code_simp

lemma pct_85_15:
  "times_100 (f32_div (int_to_f32 85) (f32_add (int_to_f32 15) (int_to_f32 85))) = Finite 85"
  by code_simp

lemma checkMemory_30_70:
  "checkMemory (True, free_30_70) = ([ReadCommand free_cmd], Inr (Finite (15728641 / 524288)))"
  by (simp add: checkMemory_def readCommandOutput_def getFreePartValue_30_70 pct_30_70)

lemma checkMemory_85_15:
  "checkMemory (True, free_85_15) = ([ReadCommand free_cmd], Inr (Finite 85))"
  by (simp add: checkMemory_def readCommandOutput_def getFreePartValue_85_15 pct_85_15)

lemma findIdle_sar_35: "findIdle sar_35 0 (- 1) = (74, 80)"
  by (simp add: sar_35_def findIdle.simps isSubstr_def isSubstr_loop.simps)

lemma findIdle_sar_5: "findIdle sar_5 0 (- 1) = (74, 80)"
  by (simp add: sar_5_def findIdle.simps isSubstr_def isSubstr_loop.simps)

lemma int_to_f32_examples: "int_to_f32 65 = 65" "int_to_f32 95 = 95" "int_to_f32 70 = 70"
  by code_simp+

lemma checkCpu_sar_35: "checkCpu (True, sar_35) = ([ReadCommand sar_cmd], Inr (Finite 65))"
  apply (simp add: checkCpu_def readCommandOutput_def findIdle_sar_35)
  apply (simp add: sar_35_def substr_def parse_defs int_to_f32_examples)
  done

lemma checkCpu_sar_5: "checkCpu (True, sar_5) = ([ReadCommand sar_cmd], Inr (Finite 95))"
  apply (simp add: checkCpu_def readCommandOutput_def findIdle_sar_5)
  apply (simp add: sar_5_def substr_def parse_defs int_to_f32_examples)
  done

lemma busy_cycle:
  "doPeriodicCheck notify_Args initial_AppState busy_env =
     ([ReadCommand free_cmd,
       SaveCommand ''ps aux --sort=-%mem'' ''mem_report_ps_'' (seconds 1790000000) (Finite 85),
       LogCouldNotSave ''Could not save mem report from ps to file'',
       SaveCommand ''top -b -n 1 -o =%MEM'' ''mem_report_top_'' (seconds 1790000000) (Finite 85),
       RunScript ''notify'' mem_title (Finite 85),
       LogScriptExit 1,
       ReadCommand sar_cmd,
       SaveCommand ''ps aux --sort=-%cpu'' ''cpu_report_'' (seconds 1790000002) (Finite 95),
       RunScript ''notify'' cpu_title (Finite 95)],
      Inr \<lparr>lastMemAlertSentTime = seconds 1790000001, lastCpuAlertSentTime = seconds 1790000003\<rparr>)"
  by (simp add: doPeriodicCheck_def busy_env_def checkMemory_85_15 checkCpu_sar_5 notify_Args_def
      default_Args_def initial_AppState_def memAlert_def cpuAlert_def trySendNotification_def
      saveCommandOutput_def capture_saved_def capture_no_pipe_def seconds_def ticks_per_second_def)

section \<open>The empty buffer\<close>

text \<open>
  C1. On the empty buffer \<^verbatim>\<open>buffer.size() - 1\<close> wraps around, the start offset lies far
  beyond the buffer, and \<^verbatim>\<open>substr\<close> throws \<^verbatim>\<open>std::out_of_range\<close>: the extractor does
  not log and return 0, and \<^verbatim>\<open>checkMemory\<close> passes the exception on, whether
  \<^verbatim>\<open>free -L\<close> printed nothing or could not be run at all.
\<close>

theorem getFreePartValue_empty_buffer_throws:
  "getFreePartValue [] 2 = ([], Inl OutOfRange) \<and>
   checkMemory (True, []) = ([ReadCommand free_cmd], Inl OutOfRange) \<and>
   checkMemory (False, out) = ([ReadCommand free_cmd, LogCouldNotExecute free_cmd], Inl OutOfRange)"
  by (simp add: getFreePartValue_empty checkMemory_empty checkMemory_def readCommandOutput_def)

text \<open>
  When both samplers return and no capture ends the process, a cycle is the memory
  sampling, the memory alert on a breach, the CPU sampling, the CPU alert on a breach, and
  the sleep, in this order; the CPU sampling is the same whatever the memory phase did.
\<close>

lemma cycle_order:
  assumes "checkMemory (free_result env) = (evm, Inr memPct)"
    and "(if f32_ge memPct (memThresholdPct args)
          then memAlert args appState env memPct else ([], Inr appState)) = (eva, Inr st1)"
    and "checkCpu (sar_result env) = (evc, Inr cpuPct)"
    and "(if f32_ge cpuPct (cpuThresholdPct args)
          then cpuAlert args st1 env cpuPct else ([], Inr st1)) = (evb, Inr st2)"
  shows "main_loop args appState [env] =
           (evm @ eva @ evc @ evb @ [Sleep (timeBetweenChecksSec args)], Inr st2)"
  using assms by (simp add: doPeriodicCheck_def)

text \<open>
  C7. A cycle whose \<^verbatim>\<open>free -L\<close> prints nothing ends the process in the memory phase:
  the trace holds the memory sampling alone, the CPU phase and the sleep never run, and
  no later cycle starts.
\<close>

theorem cycle_dies_on_empty_free_output:
  "main_loop args appState (env\<lparr>free_result := (ok, [])\<rparr> # envs) =
     (ReadCommand free_cmd # (if ok then [] else [LogCouldNotExecute free_cmd]), Inl OutOfRange)"
  by (simp add: doPeriodicCheck_def checkMemory_empty)

section \<open>The marker search\<close>

lemma isSubstr_loop_iff:
  "isSubstr_loop str substring position i \<longleftrightarrow>
     (\<forall>j. i \<le> j \<and> j < length substring \<longrightarrow> str ! (position + j) = substring ! j)"
proof (induction str substring position i rule: isSubstr_loop.induct)
  case (1 str substring position i)
  show ?case
  proof (cases "i < length substring")
    case False
    then show ?thesis by (subst isSubstr_loop.simps) auto
  next
    case True
    show ?thesis
    proof (cases "str ! (position + i) = substring ! i")
      case False
      with True show ?thesis
        by (subst isSubstr_loop.simps) auto
    next
      case eq: True
      have "isSubstr_loop str substring position i = isSubstr_loop str substring position (Suc i)"
        using True eq by (subst isSubstr_loop.simps) simp
      also have "\<dots> = (\<forall>j. Suc i \<le> j \<and> j < length substring \<longrightarrow> str ! (position + j) = substring ! j)"
        using "1.IH" True eq by simp
      also have "\<dots> = (\<forall>j. i \<le> j \<and> j < length substring \<longrightarrow> str ! (position + j) = substring ! j)"
        using eq by (metis Suc_leI le_eq_less_or_eq Suc_leD)
      finally show ?thesis .
    qed
  qed
qed

lemma isSubstr_iff:
  "isSubstr str substring position \<longleftrightarrow>
     position + length substring < length str \<and>
     take (length substring) (drop position str) = substring"
proof (cases "position + length substring < length str")
  case False
  then show ?thesis by (simp add: isSubstr_def)
next
  case True
  have "(take (length substring) (drop position str) = substring) \<longleftrightarrow>
        (\<forall>j < length substring. str ! (position + j) = substring ! j)"
    using True by (auto simp: list_eq_iff_nth_eq)
  with True show ?thesis
    by (simp add: isSubstr_def isSubstr_loop_iff)
qed

lemma findIdle_fst:
  "fst (findIdle buffer i idleOffset) = idleOffset \<or>
   (\<exists>p. fst (findIdle buffer i idleOffset) = int p \<and> isSubstr buffer ''%idle'' p)"
proof (induction buffer i idleOffset rule: findIdle.induct)
  case (1 buffer i idleOffset)
  show ?case
  proof (cases "i < length buffer")
    case False
    then show ?thesis by (simp add: findIdle.simps)
  next
    case True
    define idle' where "idle' = (if isSubstr buffer ''%idle'' i then int i else idleOffset)"
    have idle': "idle' = idleOffset \<or> (\<exists>p. idle' = int p \<and> isSubstr buffer ''%idle'' p)"
      by (auto simp: idle'_def)
    show ?thesis
    proof (cases "buffer ! i = CHR 0x0A")
      case nl: True
      have "findIdle buffer i idleOffset = (idle', i + 1)"
        using True nl by (subst findIdle.simps) (simp add: idle'_def)
      then show ?thesis using idle' by simp
    next
      case nonl: False
      have step: "findIdle buffer i idleOffset = findIdle buffer (Suc i) idle'"
        using True nonl by (subst findIdle.simps) (simp add: idle'_def Let_def)
      have "fst (findIdle buffer (Suc i) idle') = idle' \<or>
            (\<exists>p. fst (findIdle buffer (Suc i) idle') = int p \<and> isSubstr buffer ''%idle'' p)"
        using "1.IH" [OF True idle'_def nonl] .
      then show ?thesis using idle' step by auto
    qed
  qed
qed

lemma isSubstr_idle:
  "isSubstr buffer ''%idle'' p \<longleftrightarrow> p + 5 < length buffer \<and> take 5 (drop p buffer) = ''%idle''"
proof -
  have len: "length ''%idle'' = 5" by simp
  show ?thesis using isSubstr_iff [of buffer "''%idle''" p] unfolding len .
qed

lemma findIdle_none:
  assumes "\<forall>p. \<not> isSubstr buffer ''%idle'' p"
  shows "fst (findIdle buffer i idleOffset) = idleOffset"
  using findIdle_fst [of buffer i idleOffset] assms by auto

text \<open>
  C9. \<^verbatim>\<open>isSubstr\<close> is false at a position whose match would end with the string. So
  the offset the CPU search finds, if any, is that of a marker followed by at least one
  more character of the buffer; and a buffer where no marker is followed by a character
  is reported as having no idle column.
\<close>

theorem isSubstr_end_excluded:
  "(p + length t = length s \<longrightarrow> \<not> isSubstr s t p) \<and>
   (fst (findIdle buffer 0 (- 1)) \<noteq> - 1 \<longrightarrow>
      nat (fst (findIdle buffer 0 (- 1))) + 5 < length buffer \<and>
      take 5 (drop (nat (fst (findIdle buffer 0 (- 1)))) buffer) = ''%idle'') \<and>
   ((\<forall>q. q + 5 < length buffer \<longrightarrow> take 5 (drop q buffer) \<noteq> ''%idle'') \<longrightarrow>
      checkCpu (True, buffer) = ([ReadCommand sar_cmd, LogNoIdleColumn], Inr (Finite 0)))"
proof -
  have a: "p + length t = length s \<longrightarrow> \<not> isSubstr s t p"
    by (simp add: isSubstr_def)
  have b: "fst (findIdle buffer 0 (- 1)) \<noteq> - 1 \<longrightarrow>
      nat (fst (findIdle buffer 0 (- 1))) + 5 < length buffer \<and>
      take 5 (drop (nat (fst (findIdle buffer 0 (- 1)))) buffer) = ''%idle''"
    using findIdle_fst [of buffer 0 "- 1"] by (auto simp: isSubstr_idle)
  have c: "checkCpu (True, buffer) = ([ReadCommand sar_cmd, LogNoIdleColumn], Inr (Finite 0))"
    if "\<forall>q. q + 5 < length buffer \<longrightarrow> take 5 (drop q buffer) \<noteq> ''%idle''"
  proof -
    have "\<forall>q. \<not> isSubstr buffer ''%idle'' q"
      using that by (simp add: isSubstr_idle)
    then have "fst (findIdle buffer 0 (- 1)) = - 1"
      by (rule findIdle_none)
    then show ?thesis
      by (simp add: checkCpu_def readCommandOutput_def case_prod_beta)
  qed
  from a b c show ?thesis by blast
qed

theorem isSubstr_end_excluded_witness:
  "(4::nat) + length ''%idle'' = length ''CPU %idle'' \<and> \<not> isSubstr ''CPU %idle'' ''%idle'' 4 \<and>
   fst (findIdle sar_35 0 (- 1)) \<noteq> - 1 \<and>
   nat (fst (findIdle sar_35 0 (- 1))) + 5 < length sar_35 \<and>
   checkCpu (True, ''CPU %idle'') = ([ReadCommand sar_cmd, LogNoIdleColumn], Inr (Finite 0))"
proof -
  have h1: "(4::nat) + length ''%idle'' = length ''CPU %idle''" by simp
  have h2: "fst (findIdle sar_35 0 (- 1)) \<noteq> - 1" by (simp add: findIdle_sar_35)
  have h3: "\<forall>q. q + 5 < length ''CPU %idle'' \<longrightarrow> take 5 (drop q ''CPU %idle'') \<noteq> ''%idle''"
  proof (intro allI impI)
    fix q :: nat
    assume "q + 5 < length ''CPU %idle''"
    then have "q = 0 \<or> q = 1 \<or> q = 2 \<or> q = 3" by (simp; arith)
    then show "take 5 (drop q ''CPU %idle'') \<noteq> ''%idle''" by (elim disjE) simp_all
  qed
  show ?thesis
    using isSubstr_end_excluded [of 4 "''%idle''" "''CPU %idle''" sar_35]
      isSubstr_end_excluded [of 4 "''%idle''" "''CPU %idle''" "''CPU %idle''"] h1 h2 h3
    by blast
qed

section \<open>The threshold flags\<close>

lemma readArgValue_float_iff:
  "readArgValue_float argv i = Some x \<longleftrightarrow>
     i + 1 < length argv \<and> c_at (argv ! (i + 1)) 0 \<noteq> CHR ''-'' \<and>
     (\<exists>v. parseInt (argv ! (i + 1)) = Some v \<and> x = int_to_f32 v)"
  by (auto simp: readArgValue_float_def split: option.splits)

lemma readOneArg_m:
  "argv ! i = ''-m'' \<Longrightarrow>
   readOneArg argv i args = store (readArgValue_float argv i) (\<lambda>v. args\<lparr>memThresholdPct := v\<rparr>) args i"
  by (simp add: readOneArg_def c_at_def)

lemma readOneArg_c:
  "argv ! i = ''-c'' \<Longrightarrow>
   readOneArg argv i args = store (readArgValue_float argv i) (\<lambda>v. args\<lparr>cpuThresholdPct := v\<rparr>) args i"
  by (simp add: readOneArg_def c_at_def)

lemma readArgs_loop_float_invalid:
  assumes "i < length argv" and "argv ! i = ''-m'' \<or> argv ! i = ''-c''"
    and "readArgValue_float argv i = None"
  shows "readArgs_loop argv i args = Inl 2"
  using assms
  by (subst readArgs_loop.simps) (auto simp: readOneArg_m readOneArg_c store_def)

text \<open>
  C10. \<^verbatim>\<open>readArgValue<float>\<close> accepts a value exactly when there is a next argument, it
  does not begin with \<^verbatim>\<open>-\<close>, and \<^verbatim>\<open>parseInt\<close> reads it; the threshold is then the
  integer read. At \<^verbatim>\<open>-m\<close> or \<^verbatim>\<open>-c\<close> a missing value, a value beginning with \<^verbatim>\<open>-\<close> and
  a value \<^verbatim>\<open>parseInt\<close> rejects, such as \<^verbatim>\<open>70.5\<close>, all end the process with exit code 2.
\<close>

theorem float_flag_integer_only:
  "(readArgValue_float argv i = Some x \<longleftrightarrow>
      i + 1 < length argv \<and> c_at (argv ! (i + 1)) 0 \<noteq> CHR ''-'' \<and>
      (\<exists>v. parseInt (argv ! (i + 1)) = Some v \<and> x = int_to_f32 v)) \<and>
   (i < length argv \<and> (argv ! i = ''-m'' \<or> argv ! i = ''-c'') \<and>
    (i + 1 \<ge> length argv \<or> c_at (argv ! (i + 1)) 0 = CHR ''-'' \<or> parseInt (argv ! (i + 1)) = None)
      \<longrightarrow> readArgs_loop argv i args = Inl 2) \<and>
   ((flag = ''-m'' \<or> flag = ''-c'') \<and> (c_at v 0 = CHR ''-'' \<or> parseInt v = None)
      \<longrightarrow> main [prog, flag, v] envs = Inl 2)"
proof -
  have a: "readArgValue_float argv i = Some x \<longleftrightarrow>
      i + 1 < length argv \<and> c_at (argv ! (i + 1)) 0 \<noteq> CHR ''-'' \<and>
      (\<exists>v. parseInt (argv ! (i + 1)) = Some v \<and> x = int_to_f32 v)"
    by (rule readArgValue_float_iff)
  have b: "readArgs_loop argv i args = Inl 2"
    if "i < length argv" "argv ! i = ''-m'' \<or> argv ! i = ''-c''"
      "i + 1 \<ge> length argv \<or> c_at (argv ! (i + 1)) 0 = CHR ''-'' \<or> parseInt (argv ! (i + 1)) = None"
    for argv i args
  proof -
    have "readArgValue_float argv i = None"
      using that(3) by (auto simp: readArgValue_float_def)
    then show ?thesis using that(1,2) by (rule readArgs_loop_float_invalid [rotated 2])
  qed
  have c: "main [prog, flag, v] envs = Inl 2"
    if "flag = ''-m'' \<or> flag = ''-c''" "c_at v 0 = CHR ''-'' \<or> parseInt v = None"
  proof -
    have "readArgs_loop [prog, flag, v] 1 default_Args = Inl 2"
      using that by (intro b) auto
    then show ?thesis by (simp add: main_def readArgs_def)
  qed
  from a b c show ?thesis by blast
qed

theorem float_flag_integer_only_witness:
  "main [''resource_alert'', ''-m'', ''70.5''] [] = Inl 2 \<and>
   main [''resource_alert'', ''-c'', ''-5''] [] = Inl 2 \<and>
   readArgValue_float [''resource_alert'', ''-m'', ''70''] 1 = Some 70"
proof -
  have p: "parseInt ''70.5'' = None" "parseInt ''70'' = Some 70" "c_at ''-5'' 0 = CHR ''-''"
    "c_at ''70'' 0 \<noteq> CHR ''-''"
    by (simp_all add: parse_defs c_at_def)
  show ?thesis
    using float_flag_integer_only [of "[''resource_alert'', ''-m'', ''70'']" 1 70 default_Args
        "''-m''" "''70.5''" "''resource_alert''" "[]"]
      float_flag_integer_only [of "[]" 0 0 default_Args "''-c''" "''-5''" "''resource_alert''" "[]"]
      p int_to_f32_examples
    by simp
qed

section \<open>The throttle\<close>

lemma dispatched_iff:
  "dispatched (trySendNotification args lastSendTime title pct timeNow resultCode) \<longleftrightarrow>
     runCustomScript args \<noteq> [] \<and> timeNow > lastSendTime + seconds (notificationThrottleSec args)"
  by (simp add: trySendNotification_def dispatched_def)

lemma snd_trySendNotification:
  "snd (trySendNotification args lastSendTime title pct timeNow resultCode) =
     (if dispatched (trySendNotification args lastSendTime title pct timeNow resultCode)
      then timeNow else lastSendTime)"
  by (simp add: trySendNotification_def dispatched_def)













text \<open>The alerts, by what their captures do.\<close>

lemma memAlert_reported:
  assumes "saveCommandOutput (mem_ps env) = Inr couldSavePs"
    and "saveCommandOutput (mem_top env) = Inr couldSaveTop"
  shows "memAlert args appState env pct =
           ([SaveCommand ''ps aux --sort=-%mem'' ''mem_report_ps_'' (mem_time env) pct]
              @ (if \<not> couldSavePs
                 then [LogCouldNotSave ''Could not save mem report from ps to file''] else [])
              @ [SaveCommand ''top -b -n 1 -o =%MEM'' ''mem_report_top_'' (mem_time env) pct]
              @ (if \<not> couldSaveTop
                 then [LogCouldNotSave ''Could not save mem report from top to file''] else [])
              @ fst (trySendNotification args (lastMemAlertSentTime appState) mem_title pct
                       (mem_notify_time env) (mem_notify_code env)),
            Inr (appState\<lparr>lastMemAlertSentTime :=
                   snd (trySendNotification args (lastMemAlertSentTime appState) mem_title pct
                          (mem_notify_time env) (mem_notify_code env))\<rparr>))"
  using assms by (simp add: memAlert_def Let_def case_prod_beta)

lemma memAlert_dies:
  "saveCommandOutput (mem_ps env) = Inl e \<Longrightarrow>
     memAlert args appState env pct =
       ([SaveCommand ''ps aux --sort=-%mem'' ''mem_report_ps_'' (mem_time env) pct], Inl e)"
  "saveCommandOutput (mem_ps env) = Inr couldSavePs \<Longrightarrow> saveCommandOutput (mem_top env) = Inl e \<Longrightarrow>
     memAlert args appState env pct =
       ([SaveCommand ''ps aux --sort=-%mem'' ''mem_report_ps_'' (mem_time env) pct]
          @ (if \<not> couldSavePs
             then [LogCouldNotSave ''Could not save mem report from ps to file''] else [])
          @ [SaveCommand ''top -b -n 1 -o =%MEM'' ''mem_report_top_'' (mem_time env) pct], Inl e)"
  by (simp_all add: memAlert_def Let_def)

lemma cpuAlert_reported:
  assumes "saveCommandOutput (cpu_ps env) = Inr couldSave"
  shows "cpuAlert args appState env pct =
           ([SaveCommand ''ps aux --sort=-%cpu'' ''cpu_report_'' (cpu_time env) pct]
              @ (if \<not> couldSave then [LogCouldNotSave ''Could not save cpu report to file''] else [])
              @ fst (trySendNotification args (lastCpuAlertSentTime appState) cpu_title pct
                       (cpu_notify_time env) (cpu_notify_code env)),
            Inr (appState\<lparr>lastCpuAlertSentTime :=
                   snd (trySendNotification args (lastCpuAlertSentTime appState) cpu_title pct
                          (cpu_notify_time env) (cpu_notify_code env))\<rparr>))"
  using assms by (simp add: cpuAlert_def Let_def case_prod_beta)

lemma cpuAlert_dies:
  "saveCommandOutput (cpu_ps env) = Inl e \<Longrightarrow>
     cpuAlert args appState env pct =
       ([SaveCommand ''ps aux --sort=-%cpu'' ''cpu_report_'' (cpu_time env) pct], Inl e)"
  by (simp add: cpuAlert_def Let_def)





text \<open>How far a cycle gets.\<close>

lemma doPeriodicCheck_run:
  obtains (memory_dies) evm e where
      "checkMemory (free_result env) = (evm, Inl e)"
      "doPeriodicCheck args st env = (evm, Inl e)"
  | (alert_dies) evm mp eva e where
      "checkMemory (free_result env) = (evm, Inr mp)"
      "f32_ge mp (memThresholdPct args)"
      "memAlert args st env mp = (eva, Inl e)"
      "doPeriodicCheck args st env = (evm @ eva, Inl e)"
  | (cpu_dies) evm mp eva st1 evc e where
      "checkMemory (free_result env) = (evm, Inr mp)"
      "(if f32_ge mp (memThresholdPct args) then memAlert args st env mp else ([], Inr st))
         = (eva, Inr st1)"
      "checkCpu (sar_result env) = (evc, Inl e)"
      "doPeriodicCheck args st env = (evm @ eva @ evc, Inl e)"
  | (cpu_branch) evm mp eva st1 evc cp evb r where
      "checkMemory (free_result env) = (evm, Inr mp)"
      "(if f32_ge mp (memThresholdPct args) then memAlert args st env mp else ([], Inr st))
         = (eva, Inr st1)"
      "checkCpu (sar_result env) = (evc, Inr cp)"
      "(if f32_ge cp (cpuThresholdPct args) then cpuAlert args st1 env cp else ([], Inr st1))
         = (evb, r)"
      "doPeriodicCheck args st env = (evm @ eva @ evc @ evb, r)"
proof -
  obtain evm rm where m: "checkMemory (free_result env) = (evm, rm)"
    by (cases "checkMemory (free_result env)")
  show thesis
  proof (cases rm)
    case (Inl e)
    then show thesis using m memory_dies by (simp add: doPeriodicCheck_def)
  next
    case mp: (Inr mp)
    obtain eva ra where a:
      "(if f32_ge mp (memThresholdPct args) then memAlert args st env mp else ([], Inr st)) = (eva, ra)"
      by (cases "if f32_ge mp (memThresholdPct args) then memAlert args st env mp else ([], Inr st)")
    show thesis
    proof (cases ra)
      case (Inl e)
      have "doPeriodicCheck args st env = (evm @ eva, Inl e)"
        using m mp a Inl by (simp add: doPeriodicCheck_def)
      moreover have "f32_ge mp (memThresholdPct args)" "memAlert args st env mp = (eva, Inl e)"
        using a Inl by (auto split: if_splits)
      ultimately show thesis using m mp alert_dies by simp
    next
      case st1: (Inr st1)
      obtain evc rc where c: "checkCpu (sar_result env) = (evc, rc)"
        by (cases "checkCpu (sar_result env)")
      show thesis
      proof (cases rc)
        case (Inl e)
        have "doPeriodicCheck args st env = (evm @ eva @ evc, Inl e)"
          using m mp a st1 c Inl by (simp add: doPeriodicCheck_def)
        then show thesis using m mp a st1 c Inl cpu_dies by simp
      next
        case cp: (Inr cp)
        obtain evb r where b:
          "(if f32_ge cp (cpuThresholdPct args) then cpuAlert args st1 env cp else ([], Inr st1)) = (evb, r)"
          by (cases "if f32_ge cp (cpuThresholdPct args) then cpuAlert args st1 env cp else ([], Inr st1)")
        have "doPeriodicCheck args st env = (evm @ eva @ evc @ evb, r)"
          using m mp a st1 c cp b by (simp add: doPeriodicCheck_def split: sum.splits)
        then show thesis using m mp a st1 c cp b cpu_branch by simp
      qed
    qed
  qed
qed























section \<open>The alert state\<close>

lemma trySendNotification_changed:
  assumes "trySendNotification args lastSendTime title pct timeNow resultCode = (ev, t)"
    and "t \<noteq> lastSendTime"
  shows "t = timeNow \<and> RunScript (runCustomScript args) title pct \<in> set ev \<and>
         runCustomScript args \<noteq> [] \<and> timeNow > lastSendTime + seconds (notificationThrottleSec args)"
  using assms by (auto simp: trySendNotification_def split: if_splits)

lemma memAlert_changed:
  assumes "memAlert args st env pct = (ev, Inr st')"
  shows "lastCpuAlertSentTime st' = lastCpuAlertSentTime st \<and>
         (lastMemAlertSentTime st' \<noteq> lastMemAlertSentTime st \<longrightarrow>
            lastMemAlertSentTime st' = mem_notify_time env \<and>
            RunScript (runCustomScript args) mem_title pct \<in> set ev)"
proof (cases "saveCommandOutput (mem_ps env)")
  case (Inl e)
  then show ?thesis using assms by (simp add: memAlert_dies)
next
  case ps: (Inr a)
  show ?thesis
  proof (cases "saveCommandOutput (mem_top env)")
    case (Inl e)
    then show ?thesis using ps assms by (simp add: memAlert_dies)
  next
    case (Inr b)
    obtain ev3 t where n: "trySendNotification args (lastMemAlertSentTime st) mem_title pct
                             (mem_notify_time env) (mem_notify_code env) = (ev3, t)"
      by (cases "trySendNotification args (lastMemAlertSentTime st) mem_title pct
                   (mem_notify_time env) (mem_notify_code env)")
    have "memAlert args st env pct = (ev, Inr st')" by (rule assms)
    then have st': "st' = st\<lparr>lastMemAlertSentTime := t\<rparr>" and ev: "set ev3 \<subseteq> set ev"
      unfolding memAlert_reported [OF ps Inr] n by auto
    show ?thesis
      using trySendNotification_changed [OF n] ev by (auto simp: st')
  qed
qed

lemma cpuAlert_changed:
  assumes "cpuAlert args st env pct = (ev, Inr st')"
  shows "lastMemAlertSentTime st' = lastMemAlertSentTime st \<and>
         (lastCpuAlertSentTime st' \<noteq> lastCpuAlertSentTime st \<longrightarrow>
            lastCpuAlertSentTime st' = cpu_notify_time env \<and>
            RunScript (runCustomScript args) cpu_title pct \<in> set ev)"
proof (cases "saveCommandOutput (cpu_ps env)")
  case (Inl e)
  then show ?thesis using assms by (simp add: cpuAlert_dies)
next
  case (Inr a)
  obtain ev3 t where n: "trySendNotification args (lastCpuAlertSentTime st) cpu_title pct
                           (cpu_notify_time env) (cpu_notify_code env) = (ev3, t)"
    by (cases "trySendNotification args (lastCpuAlertSentTime st) cpu_title pct
                 (cpu_notify_time env) (cpu_notify_code env)")
  have "cpuAlert args st env pct = (ev, Inr st')" by (rule assms)
  then have st': "st' = st\<lparr>lastCpuAlertSentTime := t\<rparr>" and ev: "set ev3 \<subseteq> set ev"
    unfolding cpuAlert_reported [OF Inr] n by auto
  show ?thesis
    using trySendNotification_changed [OF n] ev by (auto simp: st')
qed

lemma doPeriodicCheck_changed:
  assumes "doPeriodicCheck args st env = (ev, Inr st')"
  shows "(lastMemAlertSentTime st' \<noteq> lastMemAlertSentTime st \<longrightarrow>
            lastMemAlertSentTime st' = mem_notify_time env \<and>
            (\<exists>pct. RunScript (runCustomScript args) mem_title pct \<in> set ev)) \<and>
         (lastCpuAlertSentTime st' \<noteq> lastCpuAlertSentTime st \<longrightarrow>
            lastCpuAlertSentTime st' = cpu_notify_time env \<and>
            (\<exists>pct. RunScript (runCustomScript args) cpu_title pct \<in> set ev))"
proof (cases rule: doPeriodicCheck_run [of env args st])
  case (memory_dies evm e)
  then show ?thesis using assms by simp
next
  case (alert_dies evm mp eva e)
  then show ?thesis using assms by simp
next
  case (cpu_dies evm mp eva st1 evc e)
  then show ?thesis using assms by simp
next
  case (cpu_branch evm mp eva st1 evc cp evb r)
  have r: "r = Inr st'" and ev: "ev = evm @ eva @ evc @ evb"
    using assms cpu_branch(5) by simp_all
  have ra: "lastCpuAlertSentTime st1 = lastCpuAlertSentTime st \<and>
         (lastMemAlertSentTime st1 \<noteq> lastMemAlertSentTime st \<longrightarrow>
            lastMemAlertSentTime st1 = mem_notify_time env \<and>
            RunScript (runCustomScript args) mem_title mp \<in> set eva)"
  proof (cases "f32_ge mp (memThresholdPct args)")
    case True
    then have "memAlert args st env mp = (eva, Inr st1)" using cpu_branch(2) by simp
    then show ?thesis by (rule memAlert_changed)
  next
    case False
    then show ?thesis using cpu_branch(2) by simp
  qed
  have rb: "lastMemAlertSentTime st' = lastMemAlertSentTime st1 \<and>
         (lastCpuAlertSentTime st' \<noteq> lastCpuAlertSentTime st1 \<longrightarrow>
            lastCpuAlertSentTime st' = cpu_notify_time env \<and>
            RunScript (runCustomScript args) cpu_title cp \<in> set evb)"
  proof (cases "f32_ge cp (cpuThresholdPct args)")
    case True
    then have "cpuAlert args st1 env cp = (evb, Inr st')" using cpu_branch(4) r by simp
    then show ?thesis by (rule cpuAlert_changed)
  next
    case False
    then show ?thesis using cpu_branch(4) r by simp
  qed
  show ?thesis using ra rb unfolding ev by auto
qed

lemma main_loop_changed:
  "main_loop args st envs = (ev, Inr st') \<Longrightarrow>
     (lastMemAlertSentTime st' \<noteq> lastMemAlertSentTime st \<longrightarrow>
        (\<exists>pct. RunScript (runCustomScript args) mem_title pct \<in> set ev)) \<and>
     (lastCpuAlertSentTime st' \<noteq> lastCpuAlertSentTime st \<longrightarrow>
        (\<exists>pct. RunScript (runCustomScript args) cpu_title pct \<in> set ev))"
proof (induction envs arbitrary: st ev)
  case Nil
  then show ?case by simp
next
  case (Cons env envs)
  from Cons.prems obtain ev1 st1 ev2 where
    d: "doPeriodicCheck args st env = (ev1, Inr st1)" and
    m: "main_loop args st1 envs = (ev2, Inr st')" and
    ev: "ev = ev1 @ Sleep (timeBetweenChecksSec args) # ev2"
    by (auto split: prod.splits sum.splits)
  note one = doPeriodicCheck_changed [OF d]
  note more = Cons.IH [OF m]
  show ?case
  proof (intro conjI impI)
    assume "lastMemAlertSentTime st' \<noteq> lastMemAlertSentTime st"
    then have "lastMemAlertSentTime st1 \<noteq> lastMemAlertSentTime st \<or>
               lastMemAlertSentTime st' \<noteq> lastMemAlertSentTime st1" by auto
    then show "\<exists>pct. RunScript (runCustomScript args) mem_title pct \<in> set ev"
      using one more unfolding ev by auto
  next
    assume "lastCpuAlertSentTime st' \<noteq> lastCpuAlertSentTime st"
    then have "lastCpuAlertSentTime st1 \<noteq> lastCpuAlertSentTime st \<or>
               lastCpuAlertSentTime st' \<noteq> lastCpuAlertSentTime st1" by auto
    then show "\<exists>pct. RunScript (runCustomScript args) cpu_title pct \<in> set ev"
      using one more unfolding ev by auto
  qed
qed

text \<open>
  C8, as the code has it. Both time stamps start at the epoch. \<^verbatim>\<open>trySendNotification\<close>
  sets the time stamp to the clock reading exactly when it dispatches, whatever exit code
  the script returns, and leaves it alone otherwise. Over a cycle, and over any number of
  cycles, a time stamp differs from its old value only if the trace holds a dispatch of
  that kind; after one cycle it is then the clock reading of that dispatch.
\<close>

theorem alert_state_changes:
  "lastMemAlertSentTime initial_AppState = 0 \<and> lastCpuAlertSentTime initial_AppState = 0 \<and>
   snd (trySendNotification args lastSendTime title pct timeNow resultCode) =
     (if dispatched (trySendNotification args lastSendTime title pct timeNow resultCode)
      then timeNow else lastSendTime) \<and>
   (doPeriodicCheck args st env = (ev, Inr st') \<longrightarrow>
      (lastMemAlertSentTime st' \<noteq> lastMemAlertSentTime st \<longrightarrow>
         lastMemAlertSentTime st' = mem_notify_time env \<and>
         (\<exists>pct. RunScript (runCustomScript args) mem_title pct \<in> set ev)) \<and>
      (lastCpuAlertSentTime st' \<noteq> lastCpuAlertSentTime st \<longrightarrow>
         lastCpuAlertSentTime st' = cpu_notify_time env \<and>
         (\<exists>pct. RunScript (runCustomScript args) cpu_title pct \<in> set ev))) \<and>
   (main_loop args st envs = (evs, Inr st'') \<longrightarrow>
      (lastMemAlertSentTime st'' \<noteq> lastMemAlertSentTime st \<longrightarrow>
         (\<exists>pct. RunScript (runCustomScript args) mem_title pct \<in> set evs)) \<and>
      (lastCpuAlertSentTime st'' \<noteq> lastCpuAlertSentTime st \<longrightarrow>
         (\<exists>pct. RunScript (runCustomScript args) cpu_title pct \<in> set evs)))"
  using doPeriodicCheck_changed [of args st env ev st'] main_loop_changed [of args st envs evs st'']
    snd_trySendNotification [of args lastSendTime title pct timeNow resultCode]
  by (simp add: initial_AppState_def)

theorem alert_state_changes_witness:
  "doPeriodicCheck notify_Args initial_AppState busy_env =
     (fst (doPeriodicCheck notify_Args initial_AppState busy_env),
      Inr \<lparr>lastMemAlertSentTime = seconds 1790000001, lastCpuAlertSentTime = seconds 1790000003\<rparr>) \<and>
   seconds 1790000001 \<noteq> lastMemAlertSentTime initial_AppState \<and>
   seconds 1790000003 \<noteq> lastCpuAlertSentTime initial_AppState \<and>
   seconds 1790000001 = mem_notify_time busy_env \<and>
   (\<exists>pct. RunScript (runCustomScript notify_Args) mem_title pct
            \<in> set (fst (doPeriodicCheck notify_Args initial_AppState busy_env)))"
proof -
  have d: "doPeriodicCheck notify_Args initial_AppState busy_env =
     (fst (doPeriodicCheck notify_Args initial_AppState busy_env),
      Inr \<lparr>lastMemAlertSentTime = seconds 1790000001, lastCpuAlertSentTime = seconds 1790000003\<rparr>)"
    by (simp add: busy_cycle)
  have n: "seconds 1790000001 \<noteq> lastMemAlertSentTime initial_AppState"
    "seconds 1790000003 \<noteq> lastCpuAlertSentTime initial_AppState"
    by (simp_all add: initial_AppState_def seconds_def ticks_per_second_def)
  show ?thesis
    using d n alert_state_changes [of notify_Args 0 "[]" NaN 0 0 initial_AppState busy_env
        "fst (doPeriodicCheck notify_Args initial_AppState busy_env)"
        "\<lparr>lastMemAlertSentTime = seconds 1790000001, lastCpuAlertSentTime = seconds 1790000003\<rparr>"
        "[]" "[]" initial_AppState]
    by simp
qed

text \<open>
  C8, as the specification words it, fails on a dispatch that did not succeed: the script
  exits with 1, the exit code is logged, and the time stamp is set all the same.
\<close>

theorem failed_dispatch_counterexample:
  "trySendNotification notify_Args (lastMemAlertSentTime initial_AppState) mem_title (Finite 85)
      (seconds 1790000000) 1 =
     ([RunScript ''notify'' mem_title (Finite 85), LogScriptExit 1], seconds 1790000000) \<and>
   seconds 1790000000 \<noteq> lastMemAlertSentTime initial_AppState"
  by (simp add: trySendNotification_def notify_Args_def default_Args_def initial_AppState_def
      seconds_def ticks_per_second_def)

section \<open>Captures on a breach\<close>

text \<open>The cycle under load when both notifications are throttled.\<close>

lemma busy_cycle_throttled:
  "doPeriodicCheck notify_Args
      \<lparr>lastMemAlertSentTime = seconds 1790000000, lastCpuAlertSentTime = seconds 1790000000\<rparr>
      busy_env =
     ([ReadCommand free_cmd,
       SaveCommand ''ps aux --sort=-%mem'' ''mem_report_ps_'' (seconds 1790000000) (Finite 85),
       LogCouldNotSave ''Could not save mem report from ps to file'',
       SaveCommand ''top -b -n 1 -o =%MEM'' ''mem_report_top_'' (seconds 1790000000) (Finite 85),
       ReadCommand sar_cmd,
       SaveCommand ''ps aux --sort=-%cpu'' ''cpu_report_'' (seconds 1790000002) (Finite 95)],
      Inr \<lparr>lastMemAlertSentTime = seconds 1790000000, lastCpuAlertSentTime = seconds 1790000000\<rparr>)"
  by (simp add: doPeriodicCheck_def busy_env_def checkMemory_85_15 checkCpu_sar_5 notify_Args_def
      default_Args_def memAlert_def cpuAlert_def trySendNotification_def
      saveCommandOutput_def capture_saved_def capture_no_pipe_def seconds_def ticks_per_second_def)

text \<open>
  C4. When \<^verbatim>\<open>saveCommandOutput\<close> returns, the claim holds: in the cycle under load, with
  memory at 85 and CPU at 95 percent against thresholds of 70, the trace has one capture
  attempt for each of the three commands, the failure that the first reports is logged,
  and the notification attempts follow, which dispatch from the initial state and do
  nothing when throttled; the captures are the same in both. But a report file that
  cannot be opened ends the process at the first chunk the command prints:
  \<^verbatim>\<open>saveCommandOutput\<close> hands the null \<^verbatim>\<open>FILE*\<close> to \<^verbatim>\<open>fputs\<close>. With the memory threshold
  at 70 and memory at 85 percent, whatever the other settings, the time stamps and the
  rest of the cycle: when the file of the first memory report does not open, the trace is
  the memory sampling and the first capture attempt, and the process ends there, with no
  log line, no second capture, no notification attempt, no CPU phase and no sleep; when
  the first capture is reported as failed and the file of the second does not open, the
  failure of the first is logged and the process ends at the second. With memory below
  and CPU at 95 percent, above its threshold of 70, the same holds of the CPU report.
\<close>

theorem unopened_report_file_ends_cycle:
  "doPeriodicCheck notify_Args initial_AppState busy_env =
     ([ReadCommand free_cmd,
       SaveCommand ''ps aux --sort=-%mem'' ''mem_report_ps_'' (seconds 1790000000) (Finite 85),
       LogCouldNotSave ''Could not save mem report from ps to file'',
       SaveCommand ''top -b -n 1 -o =%MEM'' ''mem_report_top_'' (seconds 1790000000) (Finite 85),
       RunScript ''notify'' mem_title (Finite 85),
       LogScriptExit 1,
       ReadCommand sar_cmd,
       SaveCommand ''ps aux --sort=-%cpu'' ''cpu_report_'' (seconds 1790000002) (Finite 95),
       RunScript ''notify'' cpu_title (Finite 95)],
      Inr \<lparr>lastMemAlertSentTime = seconds 1790000001, lastCpuAlertSentTime = seconds 1790000003\<rparr>) \<and>
   doPeriodicCheck notify_Args
      \<lparr>lastMemAlertSentTime = seconds 1790000000, lastCpuAlertSentTime = seconds 1790000000\<rparr>
      busy_env =
     ([ReadCommand free_cmd,
       SaveCommand ''ps aux --sort=-%mem'' ''mem_report_ps_'' (seconds 1790000000) (Finite 85),
       LogCouldNotSave ''Could not save mem report from ps to file'',
       SaveCommand ''top -b -n 1 -o =%MEM'' ''mem_report_top_'' (seconds 1790000000) (Finite 85),
       ReadCommand sar_cmd,
       SaveCommand ''ps aux --sort=-%cpu'' ''cpu_report_'' (seconds 1790000002) (Finite 95)],
      Inr \<lparr>lastMemAlertSentTime = seconds 1790000000, lastCpuAlertSentTime = seconds 1790000000\<rparr>) \<and>
   doPeriodicCheck (args\<lparr>memThresholdPct := 70\<rparr>) appState
      (env\<lparr>free_result := (True, free_85_15),
           mem_ps := \<lparr>pipe_opened = True, file_opened = False, chunks_written = w # ws\<rparr>\<rparr>) =
     ([ReadCommand free_cmd,
       SaveCommand ''ps aux --sort=-%mem'' ''mem_report_ps_'' (mem_time env) (Finite 85)],
      Inl NullFileWrite) \<and>
   main_loop (args\<lparr>memThresholdPct := 70\<rparr>) appState
      (env\<lparr>free_result := (True, free_85_15),
           mem_ps := \<lparr>pipe_opened = True, file_opened = False, chunks_written = w # ws\<rparr>\<rparr> # envs) =
     ([ReadCommand free_cmd,
       SaveCommand ''ps aux --sort=-%mem'' ''mem_report_ps_'' (mem_time env) (Finite 85)],
      Inl NullFileWrite) \<and>
   doPeriodicCheck (args\<lparr>memThresholdPct := 70\<rparr>) appState
      (env\<lparr>free_result := (True, free_85_15),
           mem_ps := \<lparr>pipe_opened = False, file_opened = fo, chunks_written = cs\<rparr>,
           mem_top := \<lparr>pipe_opened = True, file_opened = False, chunks_written = w # ws\<rparr>\<rparr>) =
     ([ReadCommand free_cmd,
       SaveCommand ''ps aux --sort=-%mem'' ''mem_report_ps_'' (mem_time env) (Finite 85),
       LogCouldNotSave ''Could not save mem report from ps to file'',
       SaveCommand ''top -b -n 1 -o =%MEM'' ''mem_report_top_'' (mem_time env) (Finite 85)],
      Inl NullFileWrite) \<and>
   doPeriodicCheck (args\<lparr>memThresholdPct := 70, cpuThresholdPct := 70\<rparr>) appState
      (env\<lparr>free_result := (True, free_30_70), sar_result := (True, sar_5),
           cpu_ps := \<lparr>pipe_opened = True, file_opened = False, chunks_written = w # ws\<rparr>\<rparr>) =
     ([ReadCommand free_cmd, ReadCommand sar_cmd,
       SaveCommand ''ps aux --sort=-%cpu'' ''cpu_report_'' (cpu_time env) (Finite 95)],
      Inl NullFileWrite)"
proof -
  have first: "doPeriodicCheck (args\<lparr>memThresholdPct := 70\<rparr>) appState
      (env\<lparr>free_result := (True, free_85_15),
           mem_ps := \<lparr>pipe_opened = True, file_opened = False, chunks_written = w # ws\<rparr>\<rparr>) =
     ([ReadCommand free_cmd,
       SaveCommand ''ps aux --sort=-%mem'' ''mem_report_ps_'' (mem_time env) (Finite 85)],
      Inl NullFileWrite)"
    by (simp add: doPeriodicCheck_def checkMemory_85_15 memAlert_def saveCommandOutput_def Let_def)
  have loop: "main_loop (args\<lparr>memThresholdPct := 70\<rparr>) appState
      (env\<lparr>free_result := (True, free_85_15),
           mem_ps := \<lparr>pipe_opened = True, file_opened = False, chunks_written = w # ws\<rparr>\<rparr> # envs) =
     ([ReadCommand free_cmd,
       SaveCommand ''ps aux --sort=-%mem'' ''mem_report_ps_'' (mem_time env) (Finite 85)],
      Inl NullFileWrite)"
    by (simp add: first)
  have second: "doPeriodicCheck (args\<lparr>memThresholdPct := 70\<rparr>) appState
      (env\<lparr>free_result := (True, free_85_15),
           mem_ps := \<lparr>pipe_opened = False, file_opened = fo, chunks_written = cs\<rparr>,
           mem_top := \<lparr>pipe_opened = True, file_opened = False, chunks_written = w # ws\<rparr>\<rparr>) =
     ([ReadCommand free_cmd,
       SaveCommand ''ps aux --sort=-%mem'' ''mem_report_ps_'' (mem_time env) (Finite 85),
       LogCouldNotSave ''Could not save mem report from ps to file'',
       SaveCommand ''top -b -n 1 -o =%MEM'' ''mem_report_top_'' (mem_time env) (Finite 85)],
      Inl NullFileWrite)"
    by (simp add: doPeriodicCheck_def checkMemory_85_15 memAlert_def saveCommandOutput_def Let_def)
  have cpu: "doPeriodicCheck (args\<lparr>memThresholdPct := 70, cpuThresholdPct := 70\<rparr>) appState
      (env\<lparr>free_result := (True, free_30_70), sar_result := (True, sar_5),
           cpu_ps := \<lparr>pipe_opened = True, file_opened = False, chunks_written = w # ws\<rparr>\<rparr>) =
     ([ReadCommand free_cmd, ReadCommand sar_cmd,
       SaveCommand ''ps aux --sort=-%cpu'' ''cpu_report_'' (cpu_time env) (Finite 95)],
      Inl NullFileWrite)"
    by (simp add: doPeriodicCheck_def checkMemory_30_70 checkCpu_sar_5 cpuAlert_def
        saveCommandOutput_def Let_def)
  show ?thesis
    by (intro conjI busy_cycle busy_cycle_throttled first loop second cpu)
qed

section \<open>Exact conversions\<close>

lemma bitlen_bound: "m < 2 ^ k \<Longrightarrow> bitlen m \<le> k"
proof (induction k arbitrary: m)
  case 0
  then show ?case by (simp add: bitlen.simps)
next
  case (Suc k)
  have "m div 2 < 2 ^ k" using Suc.prems by simp
  then have "bitlen (m div 2) \<le> k" by (rule Suc.IH)
  then show ?case by (subst bitlen.simps) simp
qed

lemma round_half_even_int: "round_half_even (of_int m) = m"
  by (simp add: round_half_even_def)

lemma to_f32_exact:
  assumes "\<bar>n\<bar> < 2 ^ 24"
  shows "to_f32 (of_int n) = of_int n"
proof (cases "n = 0")
  case True
  then show ?thesis by (simp add: to_f32_def round_to_bits_def)
next
  case False
  define x :: rat where "x = of_int n"
  define a where "a = \<bar>x\<bar>"
  define b where "b = bitlen (nat \<bar>n\<bar>)"
  define k where "k = 24 - b"
  have x0: "x \<noteq> 0" using False by (simp add: x_def)
  have a_int: "a = of_int \<bar>n\<bar>" by (simp add: a_def x_def)
  have "nat \<bar>n\<bar> < 2 ^ 24" using assms by (simp add: nat_less_iff)
  then have b24: "b \<le> 24" unfolding b_def by (rule bitlen_bound)
  have "1 \<le> \<bar>n\<bar>" using False by simp
  then have a1: "1 \<le> a" unfolding a_int by simp
  have fl: "\<lfloor>a\<rfloor> = \<bar>n\<bar>" unfolding a_int by (rule floor_of_int)
  have il: "ilog2 a = int b - 1"
    unfolding ilog2_def using a1 fl by (simp add: b_def)
  have e: "ilog2 a - 23 = - int k"
    using il b24 by (simp add: k_def)
  have p2: "pow2 (- int k) = 1 / 2 ^ k"
    by (cases "k = 0") (simp_all add: pow2_def)
  have q: "a / (1 / 2 ^ k) = of_int (\<bar>n\<bar> * 2 ^ k)"
    by (simp add: a_int)
  have rb: "round_to_bits 24 x =
      sgn x * of_int (round_half_even (a / pow2 (ilog2 a - 23))) * pow2 (ilog2 a - 23)"
    using x0 by (simp add: round_to_bits_def Let_def a_def)
  have "round_to_bits 24 x = sgn x * of_int (\<bar>n\<bar> * 2 ^ k) * (1 / 2 ^ k)"
    unfolding rb e q round_half_even_int p2 by (rule refl)
  also have "\<dots> = sgn x * a" by (simp add: a_int)
  also have "\<dots> = x" unfolding a_def by (rule mult_sgn_abs)
  finally show ?thesis by (simp add: to_f32_def x_def)
qed

lemma int_to_f32_exact: "\<bar>n\<bar> < 2 ^ 24 \<Longrightarrow> int_to_f32 n = of_int n"
  by (simp add: int_to_f32_def to_f32_exact)

lemma digit_val_bounds: "isdigit c \<Longrightarrow> 0 \<le> digit_val c \<and> digit_val c \<le> 9"
  by (auto simp: isdigit_def digit_val_def)

lemma foldl_dec_bounds:
  "\<forall>c\<in>set ds. isdigit c \<Longrightarrow> 0 \<le> a \<Longrightarrow>
   0 \<le> foldl (\<lambda>a c. 10 * a + digit_val c) a ds \<and>
   foldl (\<lambda>a c. 10 * a + digit_val c) a ds < (a + 1) * 10 ^ length ds"
proof (induction ds arbitrary: a)
  case Nil
  then show ?case by simp
next
  case (Cons d ds)
  have d: "0 \<le> digit_val d" "digit_val d \<le> 9" using Cons.prems(1) digit_val_bounds by auto
  have a': "0 \<le> 10 * a + digit_val d" using Cons.prems(2) d by simp
  have ih: "0 \<le> foldl (\<lambda>a c. 10 * a + digit_val c) (10 * a + digit_val d) ds \<and>
        foldl (\<lambda>a c. 10 * a + digit_val c) (10 * a + digit_val d) ds
          < (10 * a + digit_val d + 1) * 10 ^ length ds"
    using Cons.IH [OF _ a'] Cons.prems(1) by simp
  have "(10 * a + digit_val d + 1) * 10 ^ length ds \<le> (10 * (a + 1)) * 10 ^ length ds"
    using d by (intro mult_right_mono) simp_all
  also have "\<dots> = (a + 1) * 10 ^ Suc (length ds)" by simp
  finally have le: "(10 * a + digit_val d + 1) * 10 ^ length ds \<le> (a + 1) * 10 ^ Suc (length ds)" .
  have "foldl (\<lambda>a c. 10 * a + digit_val c) (10 * a + digit_val d) ds < (a + 1) * 10 ^ Suc (length ds)"
    using ih le by linarith
  then show ?case using ih by simp
qed

lemma dec_val_bounds:
  "\<forall>c\<in>set ds. isdigit c \<Longrightarrow> 0 \<le> dec_val ds \<and> dec_val ds < 10 ^ length ds"
  using foldl_dec_bounds [of ds 0] by (simp add: dec_val_def)


lemma c_str_length: "length (c_str s) \<le> length s"
  by (simp add: c_str_def length_takeWhile_le)

lemma parseInt_field_bounds:
  assumes "parseInt s = Some v" and "length s \<le> 3"
  shows "- 99 \<le> v \<and> v \<le> 999"
proof -
  from assms(1) obtain ws sg ds where
    d: "c_str s = ws @ sg @ ds" "sg = [] \<or> sg = ''+'' \<or> sg = ''-''" "\<forall>c\<in>set ds. isdigit c"
    and v: "v = (if sg = ''-'' then - dec_val ds else dec_val ds)"
    unfolding parseInt_decomposition by blast
  have len: "length ws + length sg + length ds \<le> 3"
    using c_str_length [of s] assms(2) d(1) by simp
  have b: "0 \<le> dec_val ds" "dec_val ds < 10 ^ length ds"
    using dec_val_bounds [OF d(3)] by simp_all
  show ?thesis
  proof (cases "sg = ''-''")
    case True
    then have "length ds \<le> 2" using len by simp
    then have "(10::int) ^ length ds \<le> 10 ^ 2" by (intro power_increasing) simp_all
    then show ?thesis using b v True by simp
  next
    case False
    have "length ds \<le> 3" using len by simp
    then have "(10::int) ^ length ds \<le> 10 ^ 3" by (intro power_increasing) simp_all
    then show ?thesis using b v False by simp
  qed
qed

section \<open>The header search\<close>

lemma line_end_le: "line_end buffer \<le> length buffer"
  by (simp add: line_end_def length_takeWhile_le)

lemma line_end_before: "j < line_end buffer \<Longrightarrow> buffer ! j \<noteq> CHR 0x0A"
proof -
  assume j: "j < line_end buffer"
  then have "takeWhile (\<lambda>c. c \<noteq> CHR 0x0A) buffer ! j \<in> set (takeWhile (\<lambda>c. c \<noteq> CHR 0x0A) buffer)"
    by (simp add: line_end_def)
  then have "takeWhile (\<lambda>c. c \<noteq> CHR 0x0A) buffer ! j \<noteq> CHR 0x0A"
    by (auto dest: set_takeWhileD)
  then show ?thesis using j by (simp add: line_end_def takeWhile_nth)
qed

lemma line_end_at: "line_end buffer < length buffer \<Longrightarrow> buffer ! line_end buffer = CHR 0x0A"
  using nth_length_takeWhile [of "\<lambda>c. c \<noteq> CHR 0x0A" buffer] by (simp add: line_end_def)

lemma line_end_step:
  assumes "i \<le> line_end buffer" "i < length buffer"
  shows "buffer ! i = CHR 0x0A \<longleftrightarrow> i = line_end buffer"
  using assms line_end_before [of i buffer] line_end_at [of buffer] by (cases "i = line_end buffer") auto

lemma findIdle_step:
  "i < length buffer \<Longrightarrow>
   findIdle buffer i idleOffset =
     (if buffer ! i = CHR 0x0A
      then (if isSubstr buffer ''%idle'' i then int i else idleOffset, i + 1)
      else findIdle buffer (Suc i) (if isSubstr buffer ''%idle'' i then int i else idleOffset))"
  by (subst findIdle.simps) (simp add: Let_def)

lemma findIdle_stop: "\<not> i < length buffer \<Longrightarrow> findIdle buffer i idleOffset = (idleOffset, 0)"
  by (subst findIdle.simps) simp

lemma findIdle_snd:
  "i \<le> line_end buffer \<Longrightarrow>
   snd (findIdle buffer i idleOffset) =
     (if line_end buffer < length buffer then line_end buffer + 1 else 0)"
proof (induction buffer i idleOffset rule: findIdle.induct)
  case (1 buffer i idleOffset)
  show ?case
  proof (cases "i < length buffer")
    case False
    then show ?thesis using "1.prems" line_end_le [of buffer] by (simp add: findIdle_stop)
  next
    case True
    show ?thesis
    proof (cases "buffer ! i = CHR 0x0A")
      case nl: True
      then have "i = line_end buffer" using line_end_step [OF "1.prems" True] by simp
      then show ?thesis using True nl by (simp add: findIdle_step)
    next
      case nonl: False
      then have "i \<noteq> line_end buffer" using line_end_step [OF "1.prems" True] by simp
      then have "Suc i \<le> line_end buffer" using "1.prems" by simp
      then show ?thesis
        using "1.IH" [OF True refl nonl] True nonl by (simp add: findIdle_step)
    qed
  qed
qed

lemma findIdle_none_range:
  "i \<le> line_end buffer \<Longrightarrow>
   \<forall>p. i \<le> p \<and> p \<le> line_end buffer \<longrightarrow> \<not> isSubstr buffer ''%idle'' p \<Longrightarrow>
   fst (findIdle buffer i idleOffset) = idleOffset"
proof (induction buffer i idleOffset rule: findIdle.induct)
  case (1 buffer i idleOffset)
  show ?case
  proof (cases "i < length buffer")
    case False
    then show ?thesis by (simp add: findIdle_stop)
  next
    case True
    have no: "\<not> isSubstr buffer ''%idle'' i" using "1.prems" by simp
    show ?thesis
    proof (cases "buffer ! i = CHR 0x0A")
      case nl: True
      then show ?thesis using True no by (simp add: findIdle_step)
    next
      case nonl: False
      then have "i \<noteq> line_end buffer" using line_end_step [OF "1.prems"(1) True] by simp
      then have le: "Suc i \<le> line_end buffer" using "1.prems"(1) by simp
      have rest: "\<forall>p. Suc i \<le> p \<and> p \<le> line_end buffer \<longrightarrow> \<not> isSubstr buffer ''%idle'' p"
        using "1.prems"(2) by auto
      have "fst (findIdle buffer (Suc i) idleOffset) = idleOffset"
        using "1.IH" [OF True refl nonl] le rest no by simp
      then show ?thesis using True nonl no by (simp add: findIdle_step)
    qed
  qed
qed

lemma findIdle_last:
  "i \<le> p0 \<Longrightarrow> p0 \<le> line_end buffer \<Longrightarrow> isSubstr buffer ''%idle'' p0 \<Longrightarrow>
   \<forall>p. p0 < p \<and> p \<le> line_end buffer \<longrightarrow> \<not> isSubstr buffer ''%idle'' p \<Longrightarrow>
   fst (findIdle buffer i idleOffset) = int p0"
proof (induction buffer i idleOffset rule: findIdle.induct)
  case (1 buffer i idleOffset)
  have p0_lt: "p0 < length buffer" using "1.prems"(3) by (simp add: isSubstr_idle)
  then have True: "i < length buffer" using "1.prems"(1) by simp
  have i_le: "i \<le> line_end buffer" using "1.prems"(1,2) by simp
  define idle' where "idle' = (if isSubstr buffer ''%idle'' i then int i else idleOffset)"
  show ?case
  proof (cases "buffer ! i = CHR 0x0A")
    case nl: True
    then have "i = line_end buffer" using line_end_step [OF i_le True] by simp
    then have "i = p0" using "1.prems"(1,2) by simp
    then show ?thesis using True nl "1.prems"(3) by (simp add: findIdle_step)
  next
    case nonl: False
    then have "i \<noteq> line_end buffer" using line_end_step [OF i_le True] by simp
    then have le: "Suc i \<le> line_end buffer" using i_le by simp
    have step: "findIdle buffer i idleOffset = findIdle buffer (Suc i) idle'"
      using True nonl by (simp add: findIdle_step idle'_def)
    show ?thesis
    proof (cases "i = p0")
      case eq: True
      then have "idle' = int p0" using "1.prems"(3) by (simp add: idle'_def)
      moreover have "fst (findIdle buffer (Suc i) idle') = idle'"
        by (rule findIdle_none_range [OF le]) (use "1.prems"(4) eq in auto)
      ultimately show ?thesis using step by simp
    next
      case neq: False
      then have "Suc i \<le> p0" using "1.prems"(1) by simp
      then have "fst (findIdle buffer (Suc i) idle') = int p0"
        using "1.IH" [OF True refl nonl] "1.prems"(2,3,4) by (simp add: idle'_def)
      then show ?thesis using step by simp
    qed
  qed
qed


lemma marker_no_newline: "k < 5 \<Longrightarrow> ''%idle'' ! k \<noteq> CHR 0x0A"
proof -
  assume "k < 5"
  then have "''%idle'' ! k \<in> set ''%idle''" by (intro nth_mem) simp
  then show ?thesis by auto
qed

lemma match_in_line:
  assumes m: "isSubstr buffer ''%idle'' p" and p: "p \<le> line_end buffer"
  shows "p + 5 \<le> line_end buffer"
proof (rule ccontr)
  assume "\<not> p + 5 \<le> line_end buffer"
  then have k: "line_end buffer - p < 5" using p by simp
  have len: "p + 5 < length buffer" and eq: "take 5 (drop p buffer) = ''%idle''"
    using m by (simp_all add: isSubstr_idle)
  have "line_end buffer < length buffer" using len k p by simp
  then have nl: "buffer ! line_end buffer = CHR 0x0A" by (rule line_end_at)
  have "take 5 (drop p buffer) ! (line_end buffer - p) = buffer ! (p + (line_end buffer - p))"
    using k len by simp
  then have "''%idle'' ! (line_end buffer - p) = CHR 0x0A"
    using eq nl p by simp
  then show False using marker_no_newline [OF k] by simp
qed

lemma match_in_first_line:
  assumes m: "isSubstr buffer ''%idle'' p" and p: "p \<le> line_end buffer"
  shows "take 5 (drop p (takeWhile (\<lambda>c. c \<noteq> CHR 0x0A) buffer)) = ''%idle''"
proof -
  have le: "p + 5 \<le> line_end buffer" using m p by (rule match_in_line)
  have "takeWhile (\<lambda>c. c \<noteq> CHR 0x0A) buffer = take (line_end buffer) buffer"
    unfolding line_end_def by (rule takeWhile_eq_take)
  then have "take 5 (drop p (takeWhile (\<lambda>c. c \<noteq> CHR 0x0A) buffer)) =
             take 5 (take (line_end buffer - p) (drop p buffer))"
    by (simp add: drop_take)
  also have "\<dots> = take 5 (drop p buffer)" using le by (simp add: min_def)
  finally show ?thesis using m by (simp add: isSubstr_idle)
qed

lemma line_end_append:
  "CHR 0x0A \<notin> set xs \<Longrightarrow> line_end (xs @ CHR 0x0A # ys) = length xs"
proof -
  assume "CHR 0x0A \<notin> set xs"
  then have "takeWhile (\<lambda>c. c \<noteq> CHR 0x0A) (xs @ CHR 0x0A # ys) = xs"
    by (subst takeWhile_append2) auto
  then show ?thesis by (simp add: line_end_def)
qed

lemma takeWhile_first_line:
  "CHR 0x0A \<notin> set xs \<Longrightarrow> takeWhile (\<lambda>c. c \<noteq> CHR 0x0A) (xs @ CHR 0x0A # ys) = xs"
  by (subst takeWhile_append2) auto

lemma findIdle_header:
  assumes nl: "CHR 0x0A \<notin> set pre" "CHR 0x0A \<notin> set post"
    and last: "\<forall>p>length pre. take 5 (drop p (pre @ ''%idle'' @ post)) \<noteq> ''%idle''"
  shows "findIdle (pre @ ''%idle'' @ post @ CHR 0x0A # rest) 0 (- 1) =
           (int (length pre), length pre + 5 + length post + 1)"
proof -
  define first where "first = pre @ ''%idle'' @ post"
  define buffer where "buffer = first @ CHR 0x0A # rest"
  have nlf: "CHR 0x0A \<notin> set first" using nl by (simp add: first_def)
  have le: "line_end buffer = length first" unfolding buffer_def by (rule line_end_append [OF nlf])
  have tw: "takeWhile (\<lambda>c. c \<noteq> CHR 0x0A) buffer = first"
    unfolding buffer_def by (rule takeWhile_first_line [OF nlf])
  have lenf: "length first = length pre + 5 + length post" by (simp add: first_def)
  have here: "isSubstr buffer ''%idle'' (length pre)"
    by (simp add: isSubstr_idle buffer_def first_def)
  have later: "\<forall>p. length pre < p \<and> p \<le> line_end buffer \<longrightarrow> \<not> isSubstr buffer ''%idle'' p"
  proof (intro allI impI notI)
    fix p assume p: "length pre < p \<and> p \<le> line_end buffer" and m: "isSubstr buffer ''%idle'' p"
    have "take 5 (drop p first) = ''%idle''"
      using match_in_first_line [OF m] p tw by simp
    then show False using last p by (simp add: first_def)
  qed
  have f: "fst (findIdle buffer 0 (- 1)) = int (length pre)"
    by (rule findIdle_last [OF _ _ here later]) (simp_all add: le lenf)
  have lb: "length buffer = length first + 1 + length rest" by (simp add: buffer_def)
  have s: "snd (findIdle buffer 0 (- 1)) = length first + 1"
    using findIdle_snd [of 0 buffer "- 1"] le lb by simp
  have "findIdle buffer 0 (- 1) = (int (length pre), length first + 1)"
    using f s by (simp add: prod_eq_iff)
  then show ?thesis by (simp add: buffer_def first_def)
qed

lemma findIdle_absent:
  assumes "\<forall>p. take 5 (drop p (takeWhile (\<lambda>c. c \<noteq> CHR 0x0A) buffer)) \<noteq> ''%idle''"
  shows "fst (findIdle buffer 0 (- 1)) = - 1"
proof (rule findIdle_none_range)
  show "0 \<le> line_end buffer" by simp
  show "\<forall>p. 0 \<le> p \<and> p \<le> line_end buffer \<longrightarrow> \<not> isSubstr buffer ''%idle'' p"
    using assms match_in_first_line by blast
qed

lemma checkCpu_found:
  assumes nl: "CHR 0x0A \<notin> set pre" "CHR 0x0A \<notin> set post"
    and last: "\<forall>p>length pre. take 5 (drop p (pre @ ''%idle'' @ post)) \<noteq> ''%idle''"
    and len: "length pre + 2 \<le> length rest"
    and parsed: "parseInt (take 3 (drop (length pre + 2) rest)) = Some idle"
  shows "checkCpu (True, pre @ ''%idle'' @ post @ CHR 0x0A # rest) =
           ([ReadCommand sar_cmd], Inr (Finite (of_int (100 - idle))))"
proof -
  define buffer where "buffer = pre @ ''%idle'' @ post @ CHR 0x0A # rest"
  have f: "findIdle buffer 0 (- 1) = (int (length pre), length pre + 5 + length post + 1)"
    unfolding buffer_def by (rule findIdle_header [OF nl last])
  have pos: "\<not> length pre + 5 + length post + 1 + nat (int (length pre)) + 2 > length buffer"
    using len by (simp add: buffer_def)
  define first where "first = pre @ ''%idle'' @ post"
  have lf: "length first = length pre + 5 + length post" by (simp add: first_def)
  have bf: "buffer = first @ CHR 0x0A # rest" by (simp add: buffer_def first_def)
  have "drop (length pre + 2 + (length first + 1)) buffer =
        drop (length pre + 2) (drop (length first + 1) buffer)"
    by (simp only: drop_drop)
  also have "drop (length first + 1) buffer = rest" by (simp add: bf)
  finally have "drop (length pre + 5 + length post + 1 + nat (int (length pre)) + 2) buffer =
        drop (length pre + 2) rest"
    by (simp add: lf add.commute add.left_commute)
  then have field: "take 3 (drop (length pre + 5 + length post + 1 + nat (int (length pre)) + 2) buffer) =
               take 3 (drop (length pre + 2) rest)"
    by simp
  have "- 99 \<le> idle \<and> idle \<le> 999"
    by (rule parseInt_field_bounds [OF parsed]) simp
  then have "\<bar>100 - idle\<bar> < 1100" by linarith
  then have "\<bar>100 - idle\<bar> < 2 ^ 24" by simp
  then have ex: "int_to_f32 (100 - idle) = of_int (100 - idle)" by (rule int_to_f32_exact)
  have "checkCpu (True, buffer) = ([ReadCommand sar_cmd], Inr (Finite (of_int (100 - idle))))"
    unfolding checkCpu_def readCommandOutput_def
    using f pos field parsed ex by (simp add: substr_def)
  then show ?thesis by (simp add: buffer_def)
qed

lemma checkCpu_absent:
  assumes "\<forall>p. take 5 (drop p (takeWhile (\<lambda>c. c \<noteq> CHR 0x0A) buffer)) \<noteq> ''%idle''"
  shows "checkCpu (True, buffer) = ([ReadCommand sar_cmd, LogNoIdleColumn], Inr (Finite 0))"
  using findIdle_absent [OF assms]
  by (simp add: checkCpu_def readCommandOutput_def case_prod_beta)

lemma short_not_marker: "length xs < 5 \<Longrightarrow> xs \<noteq> ''%idle''"
  by auto

text \<open>
  C5. Let the first line of the output hold the marker \<^verbatim>\<open>%idle\<close> at offset \<open>length pre\<close>,
  with no later occurrence in that line, and let the text after the first line terminator
  be \<open>rest\<close>. When \<open>rest\<close> reaches two characters past that offset and \<^verbatim>\<open>parseInt\<close>
  reads the three characters from there as \<open>idle\<close>, the sampler returns \<open>100 - idle\<close>,
  exactly. When the marker occurs nowhere in the first line, the sampler logs that there
  is no idle column and returns 0.
\<close>

theorem checkCpu_header_search:
  "(CHR 0x0A \<notin> set pre \<and> CHR 0x0A \<notin> set post \<and>
    (\<forall>p>length pre. take 5 (drop p (pre @ ''%idle'' @ post)) \<noteq> ''%idle'') \<and>
    length pre + 2 \<le> length rest \<and>
    parseInt (take 3 (drop (length pre + 2) rest)) = Some idle \<longrightarrow>
      checkCpu (True, pre @ ''%idle'' @ post @ CHR 0x0A # rest) =
        ([ReadCommand sar_cmd], Inr (Finite (of_int (100 - idle))))) \<and>
   ((\<forall>p. take 5 (drop p (takeWhile (\<lambda>c. c \<noteq> CHR 0x0A) buffer)) \<noteq> ''%idle'') \<longrightarrow>
      checkCpu (True, buffer) = ([ReadCommand sar_cmd, LogNoIdleColumn], Inr (Finite 0)))"
  using checkCpu_found [of pre post rest idle] checkCpu_absent [of buffer] by blast

text \<open>
  The witness is the report whose idle column reads \<^verbatim>\<open>" 35"\<close> on its second line: the
  sampler returns 65. A buffer too short to hold the marker has no idle column.
\<close>

theorem checkCpu_header_search_witness:
  "parseInt '' 35'' = Some 35 \<and>
   checkCpu (True, sar_35) = ([ReadCommand sar_cmd], Inr (Finite 65)) \<and>
   checkCpu (True, ''idle'') = ([ReadCommand sar_cmd, LogNoIdleColumn], Inr (Finite 0))"
proof -
  define pre where "pre = ''12:00:01 AM     CPU     %user     %nice   %system   %iowait    %steal     ''"
  define rest where "rest =
     ''12:00:02 AM     all        60         0         5         0         0        35'' @ [CHR 0x0A] @
     ''Average:        all        60         0         5         0         0        35'' @ [CHR 0x0A]"
  have lp: "length pre = 74" by (simp add: pre_def)
  have s: "sar_35 = pre @ ''%idle'' @ [] @ CHR 0x0A # rest"
    by (simp add: sar_35_def pre_def rest_def)
  have h1: "CHR 0x0A \<notin> set pre" "CHR 0x0A \<notin> set []" by (simp_all add: pre_def)
  have h2: "\<forall>p>length pre. take 5 (drop p (pre @ ''%idle'' @ [])) \<noteq> ''%idle''"
  proof (intro allI impI)
    fix p assume "length pre < p"
    then have "length (take 5 (drop p (pre @ ''%idle'' @ []))) < 5" by simp
    then show "take 5 (drop p (pre @ ''%idle'' @ [])) \<noteq> ''%idle''" by (rule short_not_marker)
  qed
  have h3: "length pre + 2 \<le> length rest" by (simp add: lp) (simp add: rest_def)
  have f: "take 3 (drop (length pre + 2) rest) = '' 35''" unfolding lp by (simp add: rest_def)
  have p: "parseInt '' 35'' = Some 35" by (simp add: parse_defs)
  have h4: "parseInt (take 3 (drop (length pre + 2) rest)) = Some 35" unfolding f by (rule p)
  have h5: "\<forall>p. take 5 (drop p (takeWhile (\<lambda>c. c \<noteq> CHR 0x0A) ''idle'')) \<noteq> ''%idle''"
  proof
    fix p
    have "length (take 5 (drop p (takeWhile (\<lambda>c. c \<noteq> CHR 0x0A) ''idle''))) < 5" by simp
    then show "take 5 (drop p (takeWhile (\<lambda>c. c \<noteq> CHR 0x0A) ''idle'')) \<noteq> ''%idle''"
      by (rule short_not_marker)
  qed
  show ?thesis
    using checkCpu_header_search [of pre "[]" rest 35 "''idle''"] h1 h2 h3 h4 h5 p
    unfolding s by simp
qed

section \<open>Fixed-column extraction\<close>

lemma size_sub_small:
  assumes "b \<le> a" and "a < SIZE_MOD"
  shows "size_sub a b = a - b"
proof -
  have b: "b mod SIZE_MOD = b" using assms by simp
  have "a + SIZE_MOD - b = (a - b) + SIZE_MOD" using assms by simp
  then have "(a + SIZE_MOD - b) mod SIZE_MOD = (a - b) mod SIZE_MOD" by (simp only: mod_add_self2)
  also have "\<dots> = a - b" using assms by simp
  finally show ?thesis unfolding size_sub_def b .
qed

lemma size_add_small: "a + b < SIZE_MOD \<Longrightarrow> size_add a b = a + b"
  by (simp add: size_add_def)

lemma size_mul_small: "a * b < SIZE_MOD \<Longrightarrow> size_mul a b = a * b"
  by (simp add: size_mul_def)

lemma scanNumber_spec:
  "i \<le> end_pos \<Longrightarrow> end_pos \<le> length buffer \<Longrightarrow> end_pos - i \<le> l \<Longrightarrow> l < SIZE_MOD \<Longrightarrow>
   scanNumber buffer s end_pos i l =
     (let r = dropWhile is_space (take (end_pos - i) (drop i buffer))
      in if r = [] then (s, l - (end_pos - i))
         else (end_pos - length r, l - (end_pos - i - length r) - 1))"
proof (induction buffer s end_pos i l rule: scanNumber.induct)
  case (1 buffer s end_pos i l)
  show ?case
  proof (cases "i < end_pos")
    case False
    then show ?thesis using "1.prems" by (subst scanNumber.simps) simp
  next
    case True
    then have il: "i < length buffer" using "1.prems"(2) by simp
    have tk: "take (end_pos - i) (drop i buffer) =
              buffer ! i # take (end_pos - Suc i) (drop (Suc i) buffer)"
    proof -
      have d: "drop i buffer = buffer ! i # drop (Suc i) buffer"
        using il by (simp add: Cons_nth_drop_Suc)
      have e: "end_pos - i = Suc (end_pos - Suc i)" using True by simp
      show ?thesis unfolding e by (subst d) simp
    qed
    have l1: "size_sub l 1 = l - 1" using "1.prems"(3,4) True by (intro size_sub_small) simp_all
    show ?thesis
    proof (cases "buffer ! i \<noteq> CHR '' ''")
      case ns: True
      have "scanNumber buffer s end_pos i l = (i, l - 1)"
        using True ns l1 by (subst scanNumber.simps) simp
      moreover have "dropWhile is_space (take (end_pos - i) (drop i buffer)) =
                     take (end_pos - i) (drop i buffer)"
        unfolding tk using ns by (simp add: is_space_def)
      moreover have "length (take (end_pos - i) (drop i buffer)) = end_pos - i"
        using "1.prems"(2) by simp
      ultimately show ?thesis using True by (simp add: Let_def tk)
    next
      case sp: False
      have step: "scanNumber buffer s end_pos i l = scanNumber buffer s end_pos (Suc i) (l - 1)"
        using True sp l1 by (subst scanNumber.simps) simp
      define r where "r = dropWhile is_space (take (end_pos - Suc i) (drop (Suc i) buffer))"
      have dw: "dropWhile is_space (take (end_pos - i) (drop i buffer)) = r"
        unfolding tk r_def using sp by (simp add: is_space_def)
      have lr: "length r \<le> end_pos - Suc i"
        unfolding r_def using length_dropWhile_le [of is_space "take (end_pos - Suc i) (drop (Suc i) buffer)"]
        by simp
      have ih: "scanNumber buffer s end_pos (Suc i) (l - 1) =
           (if r = [] then (s, l - 1 - (end_pos - Suc i))
            else (end_pos - length r, l - 1 - (end_pos - Suc i - length r) - 1))"
        using "1.IH"(1) [OF True] sp True "1.prems" l1
        by (simp add: Let_def r_def)
      show ?thesis
        unfolding step ih dw Let_def using True lr "1.prems"(3) by auto
    qed
  qed
qed


lemma dropWhile_as_drop:
  "dropWhile P xs = drop (length xs - length (dropWhile P xs)) xs"
proof -
  have "length (takeWhile P xs) + length (dropWhile P xs) = length xs"
    by (metis length_append takeWhile_dropWhile_id)
  then have "length xs - length (dropWhile P xs) = length (takeWhile P xs)" by simp
  then show ?thesis by (simp add: dropWhile_eq_drop)
qed

lemma getFreePartValue_block:
  assumes n: "37 \<le> length buffer" "length buffer < 2 ^ 62" and k: "k \<le> 3"
  shows "getFreePartValue buffer k =
           (case parseInt (block_field buffer k) of
              None \<Rightarrow> ([LogParseFailed (c_str (block_field buffer k)) free_cmd (c_str buffer)], Inr 0)
            | Some v \<Rightarrow> ([], Inr v))"
proof -
  define w where "w = (length buffer - 1) div 4"
  define p where "p = w * k"
  define s where "s = p + 9"
  define m where "m = w - 9"
  define e where "e = p + w"
  define field where "field = take m (drop s buffer)"
  define r where "r = dropWhile is_space field"
  have w9: "9 \<le> w" using n(1) by (simp add: w_def)
  have w4: "4 * w < length buffer" using n(1) by (simp add: w_def)
  have wk: "p \<le> 3 * w" using k by (simp add: p_def)
  have big: "length buffer < SIZE_MOD" "4 * w < SIZE_MOD"
    using n(2) w4 by (simp_all add: SIZE_MOD_def)
  have q: "size_sub (length buffer) 1 div 4 = w"
    using n(1) big(1) by (simp add: size_sub_small w_def)
  have mul: "size_mul w k = p"
    unfolding p_def [symmetric] using wk big(2) by (simp add: size_mul_def p_def [symmetric])
  have s_eq: "size_add p (8 + 1) = s"
    using wk w9 big(2) by (simp add: size_add_small s_def)
  have m_eq: "size_sub w (8 + 1) = m"
    using w9 big(2) by (simp add: size_sub_small m_def)
  have sm: "s + m = e" using w9 by (simp add: s_def m_def e_def)
  have e_le: "e \<le> length buffer" using wk w4 by (simp add: e_def)
  have e_eq: "min (size_add s m) (length buffer) = e"
    using sm e_le big(1) by (simp add: size_add_small)
  have scan: "scanNumber buffer s e s m =
      (if r = [] then (s, 0) else (e - length r, length r - 1))"
  proof -
    have es: "e - s = m" using sm by simp
    have lr: "length r \<le> m"
      unfolding r_def field_def
      using length_dropWhile_le [of is_space "take m (drop s buffer)"] by simp
    have "scanNumber buffer s e s m =
      (let r = dropWhile is_space (take (e - s) (drop s buffer))
       in if r = [] then (s, m - (e - s))
          else (e - length r, m - (e - s - length r) - 1))"
      using sm e_le big(2) w9 by (intro scanNumber_spec) (simp_all add: m_def)
    then show ?thesis
      unfolding es Let_def field_def [symmetric] r_def [symmetric] using lr by auto
  qed
  have fld: "drop 9 (take w (drop (k * w) buffer)) = field"
    by (simp add: field_def drop_take m_def s_def p_def mult.commute add.commute)
  have bf: "block_field buffer k = butlast r"
    unfolding block_field_def Let_def w_def [symmetric] fld r_def ..
  have s_le: "s \<le> length buffer" using sm e_le by simp
  show ?thesis
  proof (cases "r = []")
    case True
    have "substr buffer s 0 = Inr []" using s_le by (simp add: substr_def)
    moreover have "parseInt [] = None" by (simp add: parse_defs)
    ultimately show ?thesis
      unfolding getFreePartValue_def Let_def q mul s_eq m_eq e_eq scan bf
      using True by simp
  next
    case False
    have lf: "length field = m" using sm e_le by (simp add: field_def)
    have lr: "length r \<le> m" "0 < length r"
      using False length_dropWhile_le [of is_space field] by (simp_all add: r_def lf)
    have "r = drop (length field - length r) field"
      unfolding r_def by (rule dropWhile_as_drop)
    also have "\<dots> = drop (m - length r) field"
      by (simp only: lf)
    also have "\<dots> = drop (m - length r) (take m (drop s buffer))"
      by (simp only: field_def)
    also have "\<dots> = take (m - (m - length r)) (drop (m - length r) (drop s buffer))"
      by (simp only: drop_take)
    also have "m - (m - length r) = length r" using lr by simp
    also have "drop (m - length r) (drop s buffer) = drop (e - length r) buffer"
      using lr sm by (simp add: add.commute)
    finally have r_eq: "r = take (length r) (drop (e - length r) buffer)" .
    have "butlast r = take (length r - 1) r" by (rule butlast_conv_take)
    also have "\<dots> = take (length r - 1) (take (length r) (drop (e - length r) buffer))"
      using r_eq by simp
    also have "\<dots> = take (length r - 1) (drop (e - length r) buffer)"
      by (simp add: min_def)
    finally have num: "take (length r - 1) (drop (e - length r) buffer) = butlast r" by simp
    have "substr buffer (e - length r) (length r - 1) = Inr (butlast r)"
      using e_le num by (simp add: substr_def)
    then show ?thesis
      unfolding getFreePartValue_def Let_def q mul s_eq m_eq e_eq scan bf
      using False by simp
  qed
qed

lemma checkMemory_blocks:
  assumes "37 \<le> length buffer" "length buffer < 2 ^ 62"
    and "parseInt (block_field buffer 2) = Some used"
    and "parseInt (block_field buffer 3) = Some free"
  shows "checkMemory (True, buffer) =
           ([ReadCommand free_cmd],
            Inr (times_100 (f32_div (int_to_f32 used) (f32_add (int_to_f32 free) (int_to_f32 used)))))"
proof -
  have "getFreePartValue buffer 2 = ([], Inr used)" "getFreePartValue buffer 3 = ([], Inr free)"
    using assms by (simp_all add: getFreePartValue_block)
  then show ?thesis by (simp add: checkMemory_def readCommandOutput_def)
qed

section \<open>Rounding\<close>

text \<open>
  The rounding of the model is rounding to nearest: \<open>ilog2\<close> is the binary exponent,
  \<open>round_half_even\<close> is within a half of its argument, and a value rounded to \<open>p\<close>
  bits is within the fraction \<open>1 / 2 ^ p\<close> of it.
\<close>

lemma bitlen_upper: "n < 2 ^ bitlen n"
proof (induction n rule: bitlen.induct)
  case (1 n)
  show ?case
  proof (cases "n = 0")
    case True
    then show ?thesis by (simp add: bitlen.simps)
  next
    case False
    then have "n div 2 < 2 ^ bitlen (n div 2)" by (rule "1.IH")
    then have "n < 2 * 2 ^ bitlen (n div 2)" by linarith
    then show ?thesis using False by (subst bitlen.simps) simp
  qed
qed

lemma bitlen_lower: "0 < n \<Longrightarrow> 2 ^ (bitlen n - 1) \<le> n"
proof (induction n rule: bitlen.induct)
  case (1 n)
  have n0: "n \<noteq> 0" using "1.prems" by simp
  have b: "bitlen n = Suc (bitlen (n div 2))" using n0 by (subst bitlen.simps) simp
  show ?case
  proof (cases "n div 2 = 0")
    case True
    then have "bitlen (n div 2) = 0" by (simp add: bitlen.simps)
    then show ?thesis using b "1.prems" by simp
  next
    case False
    then have ih: "2 ^ (bitlen (n div 2) - 1) \<le> n div 2" using "1.IH" [OF n0] by simp
    have pos: "0 < bitlen (n div 2)" using False by (subst bitlen.simps) simp
    then have "(2::nat) ^ bitlen (n div 2) = 2 * 2 ^ (bitlen (n div 2) - 1)"
      by (cases "bitlen (n div 2)") simp_all
    then have "(2::nat) ^ bitlen (n div 2) \<le> n" using ih by linarith
    then show ?thesis using b by simp
  qed
qed

lemma rat_upper: "of_nat n + 1 \<le> (2::rat) ^ bitlen n"
proof -
  have "Suc n \<le> 2 ^ bitlen n" using bitlen_upper [of n] by simp
  then have "(of_nat (Suc n) :: rat) \<le> of_nat (2 ^ bitlen n)" by (simp only: of_nat_le_iff)
  then show ?thesis by simp
qed

lemma ilog2_bounds:
  assumes "0 < x"
  shows "pow2 (ilog2 x) \<le> x \<and> x < pow2 (ilog2 x + 1)"
proof (cases "1 \<le> x")
  case True
  define n where "n = nat \<lfloor>x\<rfloor>"
  have n1: "0 < n" using True by (simp add: n_def)
  have fl: "of_nat n \<le> x" "x < of_nat n + 1"
    using True by (simp_all add: n_def) linarith+
  have e: "ilog2 x = int (bitlen n) - 1" using True by (simp add: ilog2_def n_def)
  have bpos: "0 < bitlen n" using n1 by (subst bitlen.simps) simp
  have lo: "pow2 (int (bitlen n) - 1) = 2 ^ (bitlen n - 1)"
    using bpos by (simp add: pow2_def nat_diff_distrib')
  have hi: "pow2 (int (bitlen n) - 1 + 1) = 2 ^ bitlen n"
    by (simp add: pow2_def)
  have "(of_nat (2 ^ (bitlen n - 1)) :: rat) \<le> of_nat n"
    using bitlen_lower [OF n1] by (simp only: of_nat_le_iff)
  then have "(2::rat) ^ (bitlen n - 1) \<le> of_nat n" by simp
  moreover have "of_nat n + 1 \<le> (2::rat) ^ bitlen n" by (rule rat_upper)
  ultimately show ?thesis unfolding e lo hi using fl by linarith
next
  case False
  define c where "c = \<lceil>1 / x\<rceil>"
  define n where "n = nat (c - 1)"
  define j where "j = bitlen n"
  have y1: "1 < 1 / x" using assms False by simp
  have c2: "2 \<le> c" using y1 unfolding c_def by linarith
  have n1: "0 < n" using c2 by (simp add: n_def)
  have cn: "of_int c = (of_nat n :: rat) + 1" using c2 by (simp add: n_def)
  have yb: "1 / x \<le> of_int c" "of_int c - 1 < 1 / x"
    unfolding c_def by linarith+
  have e: "ilog2 x = - int j" using False by (simp add: ilog2_def j_def n_def c_def)
  have jpos: "0 < j" unfolding j_def using n1 by (subst bitlen.simps) simp
  have lo: "pow2 (- int j) = 1 / 2 ^ j" using jpos by (simp add: pow2_def)
  have hi: "pow2 (- int j + 1) = 1 / 2 ^ (j - 1)"
  proof (cases "j = 1")
    case True
    then show ?thesis by (simp add: pow2_def)
  next
    case False
    then have "\<not> 0 \<le> - int j + 1" "nat (- (- int j + 1)) = j - 1" using jpos by simp_all
    then show ?thesis by (simp add: pow2_def)
  qed
  have up: "of_nat n + 1 \<le> (2::rat) ^ j"
    unfolding j_def by (rule rat_upper)
  have "(of_nat (2 ^ (bitlen n - 1)) :: rat) \<le> of_nat n"
    using bitlen_lower [OF n1] by (simp only: of_nat_le_iff)
  then have dn: "(2::rat) ^ (j - 1) \<le> of_nat n" unfolding j_def by simp
  have a: "1 / x \<le> 2 ^ j" using yb(1) cn up by linarith
  have b: "2 ^ (j - 1) < 1 / x" using yb(2) cn dn by linarith
  have "1 / 2 ^ j \<le> x"
    using a assms by (simp add: field_simps)
  moreover have "x < 1 / 2 ^ (j - 1)"
    using b assms by (simp add: field_simps)
  ultimately show ?thesis unfolding e lo hi by simp
qed

lemma round_half_even_near: "\<bar>of_int (round_half_even x) - x\<bar> \<le> 1 / 2"
proof -
  define f where "f = \<lfloor>x\<rfloor>"
  define r where "r = x - of_int f"
  have r: "0 \<le> r" "r < 1" unfolding r_def f_def by linarith+
  have x: "x = of_int f + r" by (simp add: r_def)
  show ?thesis
    unfolding round_half_even_def Let_def f_def [symmetric] r_def [symmetric]
    using r x by (auto simp: abs_if)
qed


lemma pow2_power_int: "pow2 e = power_int 2 e"
  by (simp add: pow2_def power_int_def power_one_over inverse_eq_divide)

lemma pow2_pos: "0 < pow2 e"
  by (simp add: pow2_def)

lemma pow2_diff: "pow2 (e - int k) = pow2 e / 2 ^ k"
  by (simp add: pow2_power_int power_int_diff)

lemma round_to_bits_error:
  assumes "0 < p"
  shows "\<bar>round_to_bits p x - x\<bar> \<le> \<bar>x\<bar> / 2 ^ p"
proof (cases "x = 0")
  case True
  then show ?thesis by (simp add: round_to_bits_def)
next
  case False
  define a where "a = \<bar>x\<bar>"
  define e where "e = ilog2 a - (int p - 1)"
  define y where "y = a / pow2 e"
  define m where "m = round_half_even y"
  have a0: "0 < a" using False by (simp add: a_def)
  have r: "round_to_bits p x = sgn x * of_int m * pow2 e"
    using False by (simp add: round_to_bits_def Let_def a_def e_def y_def m_def)
  have pe: "0 < pow2 e" by (rule pow2_pos)
  have ay: "a = y * pow2 e" using pe by (simp add: y_def)
  have "x = sgn x * a" unfolding a_def by (simp add: mult_sgn_abs)
  then have x: "x = sgn x * y * pow2 e" using ay by simp
  have "round_to_bits p x - x = sgn x * (of_int m - y) * pow2 e"
    unfolding r by (subst (2) x) (simp add: algebra_simps)
  then have "\<bar>round_to_bits p x - x\<bar> = \<bar>sgn x\<bar> * \<bar>of_int m - y\<bar> * pow2 e"
    using pe by (simp add: abs_mult)
  also have "\<bar>sgn x\<bar> = 1" using False by (simp add: abs_sgn_eq)
  finally have d: "\<bar>round_to_bits p x - x\<bar> = \<bar>of_int m - y\<bar> * pow2 e" by simp
  have "e = ilog2 a - int (p - 1)" using assms by (simp add: e_def of_nat_diff)
  then have pe_eq: "pow2 e = pow2 (ilog2 a) / 2 ^ (p - 1)" by (simp only: pow2_diff)
  have half: "(1 / 2) * pow2 e = pow2 (ilog2 a) / 2 ^ p"
    unfolding pe_eq using assms by (cases p) simp_all
  have "\<bar>of_int m - y\<bar> \<le> 1 / 2" unfolding m_def by (rule round_half_even_near)
  then have "\<bar>of_int m - y\<bar> * pow2 e \<le> (1 / 2) * pow2 e"
    using pe by (intro mult_right_mono) simp_all
  also have "\<dots> = pow2 (ilog2 a) / 2 ^ p" by (rule half)
  also have "\<dots> \<le> a / 2 ^ p"
    using ilog2_bounds [OF a0] by (simp add: divide_right_mono)
  finally have "\<bar>of_int m - y\<bar> * pow2 e \<le> a / 2 ^ p" .
  then show ?thesis unfolding d a_def .
qed


lemma used_pct_accuracy:
  assumes "0 \<le> used" "0 \<le> free" "0 < used + free" "used + free < 2 ^ 24"
  shows "\<exists>r. times_100 (f32_div (int_to_f32 used) (f32_add (int_to_f32 free) (int_to_f32 used))) =
               Finite r \<and>
             \<bar>r - 100 * of_int used / of_int (used + free)\<bar>
               \<le> (100 * of_int used / of_int (used + free)) / 2 ^ 22"
proof -
  define rho :: rat where "rho = of_int used / of_int (used + free)"
  define q where "q = to_f32 rho"
  define d where "d = to_f64 (q * 100)"
  define r where "r = to_f32 d"
  have u: "int_to_f32 used = of_int used" using assms by (intro int_to_f32_exact) simp
  have f: "int_to_f32 free = of_int free" using assms by (intro int_to_f32_exact) simp
  have "f32_add (of_int free) (of_int used) = to_f32 (of_int (free + used))"
    by (simp add: f32_add_def)
  also have "\<dots> = of_int (free + used)" using assms by (intro to_f32_exact) simp
  finally have s: "f32_add (of_int free) (of_int used) = of_int (used + free)"
    by (simp add: add.commute)
  have nz: "(of_int (used + free) :: rat) \<noteq> 0" using assms(3) by simp
  have val: "times_100 (f32_div (int_to_f32 used) (f32_add (int_to_f32 free) (int_to_f32 used))) =
             Finite r"
    unfolding u f s using nz by (simp add: f32_div_def r_def d_def q_def rho_def)
  have rho0: "0 \<le> rho" using assms by (simp add: rho_def)
  have e1: "\<bar>q - rho\<bar> \<le> \<bar>rho\<bar> / 2 ^ 24"
    unfolding q_def to_f32_def by (rule round_to_bits_error) simp
  have e2: "\<bar>d - q * 100\<bar> \<le> \<bar>q * 100\<bar> / 2 ^ 53"
    unfolding d_def to_f64_def by (rule round_to_bits_error) simp
  have e3: "\<bar>r - d\<bar> \<le> \<bar>d\<bar> / 2 ^ 24"
    unfolding r_def to_f32_def by (rule round_to_bits_error) simp
  have b1: "\<bar>q - rho\<bar> \<le> rho / 16777216" using e1 rho0 by simp
  then have q0: "0 \<le> q" using rho0 by linarith
  have b2: "\<bar>d - q * 100\<bar> \<le> q * 100 / 9007199254740992" using e2 q0 by simp
  then have d0: "0 \<le> d" using q0 by linarith
  have b3: "\<bar>r - d\<bar> \<le> d / 16777216" using e3 d0 by simp
  have "\<bar>r - 100 * rho\<bar> \<le> (100 * rho) / 4194304"
    using b1 b2 b3 rho0 q0 d0 by linarith
  then have "\<bar>r - 100 * rho\<bar> \<le> (100 * rho) / 2 ^ 22" by simp
  then show ?thesis using val by (auto simp: rho_def)
qed

text \<open>
  C6, as the code has it. On a report of four equal blocks (at least 37 characters) whose
  blocks 2 and 3 hold the numerals of \<open>used\<close> and \<open>free\<close>, the sampler returns
  \<open>100 * used / (used + free)\<close> as single precision arithmetic computes it: both values
  converted to \<^verbatim>\<open>float\<close>, their sum and the quotient each rounded to \<^verbatim>\<open>float\<close>, and the
  product with 100 rounded to \<^verbatim>\<open>float\<close>. For values that are not negative, with a
  positive sum below \<open>2 ^ 24\<close>, the result is finite and within the fraction
  \<open>1 / 2 ^ 22\<close> of \<open>100 * used / (used + free)\<close>. For 30 and 70 the quotient rounds to
  the \<^verbatim>\<open>float\<close> next to \<open>3 / 10\<close> and the result is \<open>30 + 1 / 2 ^ 19\<close>, the
  \<^verbatim>\<open>float\<close> next above 30.
\<close>

theorem checkMemory_single_precision:
  "(37 \<le> length buffer \<and> length buffer < 2 ^ 62 \<and>
    parseInt (block_field buffer 2) = Some used \<and>
    parseInt (block_field buffer 3) = Some free \<longrightarrow>
      checkMemory (True, buffer) =
        ([ReadCommand free_cmd],
         Inr (times_100 (f32_div (int_to_f32 used) (f32_add (int_to_f32 free) (int_to_f32 used)))))) \<and>
   (0 \<le> used \<and> 0 \<le> free \<and> 0 < used + free \<and> used + free < 2 ^ 24 \<longrightarrow>
      (\<exists>r. times_100 (f32_div (int_to_f32 used) (f32_add (int_to_f32 free) (int_to_f32 used))) =
             Finite r \<and>
           \<bar>r - 100 * of_int used / of_int (used + free)\<bar>
             \<le> (100 * of_int used / of_int (used + free)) / 2 ^ 22)) \<and>
   times_100 (f32_div (int_to_f32 30) (f32_add (int_to_f32 70) (int_to_f32 30))) =
     Finite (30 + 1 / 2 ^ 19)"
proof -
  have "(30 + 1 / 2 ^ 19 :: rat) = 15728641 / 524288" by simp
  then show ?thesis
    using checkMemory_blocks [of buffer used free] used_pct_accuracy [of used free] pct_30_70
    by simp
qed

theorem checkMemory_single_precision_witness:
  "37 \<le> length free_30_70 \<and> length free_30_70 < 2 ^ 62 \<and>
   parseInt (block_field free_30_70 2) = Some 30 \<and>
   parseInt (block_field free_30_70 3) = Some 70 \<and>
   (0::int) \<le> 30 \<and> (0::int) \<le> 70 \<and> (0::int) < 30 + 70 \<and> (30 + 70 :: int) < 2 ^ 24 \<and>
   checkMemory (True, free_30_70) = ([ReadCommand free_cmd], Inr (Finite (30 + 1 / 2 ^ 19))) \<and>
   \<bar>(30 + 1 / 2 ^ 19 :: rat) - 100 * of_int 30 / of_int (30 + 70)\<bar>
     \<le> (100 * of_int 30 / of_int (30 + 70)) / 2 ^ 22"
proof -
  have len: "length free_30_70 = 81" by (simp add: free_30_70_def)
  have b2: "block_field free_30_70 2 = ''30''"
    unfolding block_field_def len by (simp add: free_30_70_def is_space_def)
  have b3: "block_field free_30_70 3 = ''70''"
    unfolding block_field_def len by (simp add: free_30_70_def is_space_def)
  have p: "parseInt ''30'' = Some 30" "parseInt ''70'' = Some 70"
    by (simp_all add: parse_defs)
  have h: "37 \<le> length free_30_70" "length free_30_70 < 2 ^ 62"
    "parseInt (block_field free_30_70 2) = Some 30" "parseInt (block_field free_30_70 3) = Some 70"
    by (simp_all add: len b2 b3 p)
  have a: "(0::int) \<le> 30 \<and> (0::int) \<le> 70 \<and> (0::int) < 30 + 70 \<and> (30 + 70 :: int) < 2 ^ 24"
    by simp
  from checkMemory_single_precision [of free_30_70 30 70] h a
  have c: "checkMemory (True, free_30_70) = ([ReadCommand free_cmd], Inr (Finite (30 + 1 / 2 ^ 19)))"
    and r: "\<exists>r. Finite (30 + 1 / 2 ^ 19) = Finite r \<and>
           \<bar>r - 100 * of_int 30 / of_int (30 + 70)\<bar> \<le> (100 * of_int 30 / of_int (30 + 70)) / 2 ^ 22"
    by auto
  from r have "\<bar>(30 + 1 / 2 ^ 19 :: rat) - 100 * of_int 30 / of_int (30 + 70)\<bar>
     \<le> (100 * of_int 30 / of_int (30 + 70)) / 2 ^ 22"
    by auto
  then show ?thesis using h a c by blast
qed

text \<open>
  C6, as the specification words it, fails at its own example: for a report with 30 used
  and 70 free the sampler does not return 30 but the next \<^verbatim>\<open>float\<close> above it,
  \<open>15728641 / 524288\<close>.
\<close>

theorem checkMemory_30_70_counterexample:
  "getFreePartValue free_30_70 2 = ([], Inr 30) \<and>
   getFreePartValue free_30_70 3 = ([], Inr 70) \<and>
   checkMemory (True, free_30_70) = ([ReadCommand free_cmd], Inr (Finite (15728641 / 524288))) \<and>
   Finite (15728641 / 524288) \<noteq> Finite 30"
  by (simp add: getFreePartValue_30_70 checkMemory_30_70)

end
